theory Spec2Isabelle
  imports Main "HOL-Library.Sublist"
begin

section \<open>Service start-up of the node: server/commands/services.go\<close>

text \<open>
  The file under study starts the go-ethereum node, unlocks the requested accounts,
  spawns the wallet watcher, builds the ABCI application and its server and finally starts
  the Tendermint node. Nearly everything it does is a call into a collaborator
  (go-ethereum, Tendermint, the console), so the model is a trace semantics:

  \<^item> every call into a collaborator and every line printed is an \<open>event\<close>, recorded
    with its arguments and with the answer the collaborator gave;
  \<^item> the collaborators are an \<open>env\<close>: one answer function per call, which may depend on
    everything that happened so far (the history, an event list, oldest first);
  \<^item> a function of the source takes the environment and the history at its start and
    returns its Go result together with the events it added;
  \<^item> \<open>Fatalf\<close>, \<open>os.Exit\<close> and a runtime panic end the process: they are the \<open>halt\<close>
    values, the left summand of every result.
\<close>

subsection \<open>Strings: \<open>strings.Split\<close> and \<open>strings.TrimSpace\<close>\<close>

text \<open>
  A Go string is a byte sequence and so is a \<open>string\<close> here. \<open>strings.Split(s, ",")\<close>
  cuts at every comma and returns one more piece than there are commas (a single empty
  piece for the empty string).
\<close>

fun Split :: "string \<Rightarrow> string list" where
  "Split [] = [[]]"
| "Split (c # cs) =
     (if c = CHR '','' then [] # Split cs
      else (case Split cs of [] \<Rightarrow> [[c]] | p # ps \<Rightarrow> (c # p) # ps))"

text \<open>
  \<open>strings.TrimSpace\<close> removes leading and trailing white space as Unicode defines it
  (\<open>unicode.IsSpace\<close>). The list holds the UTF-8 encoding of each of the 25 white-space
  code points: U+0009 to U+000D, U+0020, U+0085, U+00A0, U+1680, U+2000 to U+200A,
  U+2028, U+2029, U+202F, U+205F and U+3000. A byte that starts no valid encoding decodes
  to U+FFFD, which is not white space, so trimming stops there.
\<close>

definition spaceRunes :: "string list" where
  "spaceRunes =
    [[CHR 0x09], [CHR 0x0A], [CHR 0x0B], [CHR 0x0C], [CHR 0x0D], [CHR 0x20],
     [CHR 0xC2, CHR 0x85], [CHR 0xC2, CHR 0xA0],
     [CHR 0xE1, CHR 0x9A, CHR 0x80],
     [CHR 0xE2, CHR 0x80, CHR 0x80], [CHR 0xE2, CHR 0x80, CHR 0x81],
     [CHR 0xE2, CHR 0x80, CHR 0x82], [CHR 0xE2, CHR 0x80, CHR 0x83],
     [CHR 0xE2, CHR 0x80, CHR 0x84], [CHR 0xE2, CHR 0x80, CHR 0x85],
     [CHR 0xE2, CHR 0x80, CHR 0x86], [CHR 0xE2, CHR 0x80, CHR 0x87],
     [CHR 0xE2, CHR 0x80, CHR 0x88], [CHR 0xE2, CHR 0x80, CHR 0x89],
     [CHR 0xE2, CHR 0x80, CHR 0x8A],
     [CHR 0xE2, CHR 0x80, CHR 0xA8], [CHR 0xE2, CHR 0x80, CHR 0xA9],
     [CHR 0xE2, CHR 0x80, CHR 0xAF],
     [CHR 0xE2, CHR 0x81, CHR 0x9F],
     [CHR 0xE3, CHR 0x80, CHR 0x80]]"

text \<open>The number of bytes of the rune from \<open>runes\<close> that \<open>s\<close> starts with, 0 if none.\<close>

fun runeWidth :: "string list \<Rightarrow> string \<Rightarrow> nat" where
  "runeWidth [] s = 0"
| "runeWidth (r # rs) s =
     (if r \<noteq> [] \<and> prefix r s then length r else runeWidth rs s)"

function trimRunes :: "string list \<Rightarrow> string \<Rightarrow> string" where
  "trimRunes runes s =
     (if runeWidth runes s = 0 then s else trimRunes runes (drop (runeWidth runes s) s))"
  by pat_completeness auto
termination
proof (relation "measure (\<lambda>(runes, s). length s)")
  show "wf (measure (\<lambda>(runes, s). length s))" by simp
next
  fix runes :: "string list" and s :: string
  assume w: "runeWidth runes s \<noteq> 0"
  have "runeWidth runes s \<noteq> 0 \<Longrightarrow> s \<noteq> []"
    by (induction runes) (auto split: if_splits)
  with w show "((runes, drop (runeWidth runes s) s), (runes, s))
      \<in> measure (\<lambda>(runes, s). length s)"
    by simp
qed

definition TrimLeft :: "string \<Rightarrow> string" where
  "TrimLeft s = trimRunes spaceRunes s"

definition TrimRight :: "string \<Rightarrow> string" where
  "TrimRight s = rev (trimRunes (map rev spaceRunes) (rev s))"

definition TrimSpace :: "string \<Rightarrow> string" where
  "TrimSpace s = TrimRight (TrimLeft s)"

text \<open>\<open>%d\<close> of a non-negative number, for the prompt \<open>Attempt n/3\<close>.\<close>

definition digit :: "nat \<Rightarrow> char" where
  "digit n = char_of (48 + n)"

fun itoa :: "nat \<Rightarrow> string" where
  "itoa n = (if n < 10 then [digit n] else itoa (n div 10) @ [digit (n mod 10)])"

text \<open>
  The recursive equations of \<open>trimRunes\<close> and \<open>itoa\<close> are unfolded on request only.
\<close>

declare trimRunes.simps [simp del]
declare itoa.simps [simp del]

subsection \<open>Values that cross the interfaces\<close>

text \<open>
  A Go \<open>error\<close> is represented by its message. An address is represented by the string
  its \<open>Hex()\<close> method returns. The handles of the long-lived services are numbered.
\<close>

type_synonym error = string

record url =
  Scheme :: string
  Path :: string

definition url_String :: "url \<Rightarrow> string" where
  "url_String u = (if Scheme u \<noteq> [] then Scheme u @ ''://'' @ Path u else Path u)"

record account =
  Address :: string
  URL :: url

record AmbiguousAddrError =
  Addr :: string
  Matches :: "account list"

text \<open>What \<open>ks.Unlock\<close> can return besides \<open>nil\<close>.\<close>

datatype unlock_error =
    Ambiguous AmbiguousAddrError
  | ErrDecrypt
  | OtherError string

datatype ethnode = EthNode nat
datatype keystore = KeyStore nat
datatype backend = Backend nat
datatype client = Client nat
datatype ethclient = NewClient client
datatype ethapp = EthermintApplication nat
datatype server = Server nat
datatype storeapp = StoreApp nat
datatype baseapp = BaseApp nat
datatype tmnode = TmNode nat
datatype wallet = WalletRef nat url

fun wallet_URL :: "wallet \<Rightarrow> url" where
  "wallet_URL (WalletRef n u) = u"

record WalletEvent =
  Wallet :: wallet
  Arrive :: bool

text \<open>The command-line context: the flags the file reads.\<close>

record ctx =
  ABCIAddrFlag :: string
  ABCIProtocolFlag :: string
  UnlockedAccountFlag :: string
  PasswordFileFlag :: string

text \<open>The Tendermint configuration, as far as \<open>startTendermint\<close> reads it.\<close>

record config =
  ProxyApp :: string
  ABCI :: string
  DBDir :: string
  PrivValidatorFile :: string

datatype clientcreator =
    NewLocalClientCreator baseapp
  | DefaultClientCreator string string string

text \<open>
  The ways the process ends before a function returns: \<open>ethUtils.Fatalf(format, args)\<close>
  prints and exits with status 1, \<open>os.Exit(code)\<close>, and a runtime panic.
\<close>

datatype halt =
    Fatalf string "string list"
  | Exit int
  | Panic string

datatype level = Info | Warn

subsection \<open>Events and the environment\<close>

datatype event =
    EvMakeFullNode "halt + ethnode"
  | EvStartNode ethnode "halt option"
  | EvBackends ethnode "keystore list"
  | EvMakePasswordList "halt + string list"
  | EvMakeAddress keystore string "error + account"
  | EvPrintln "string list"
  | EvPrintf string "string list"
  | EvPromptPassword string "error + string"
  | EvUnlock keystore account string "unlock_error option"
  | EvLog level string "(string \<times> string) list"
  | EvSubscribe ethnode
  | EvGo
  | EvService ethnode "error + backend"
  | EvAttach ethnode "error + client"
  | EvNewEthermintApplication backend client "error + ethapp"
  | EvSetLogger string
  | EvNewServer string string ethapp "error + server"
  | EvServerStart server "error option"
  | EvCreateBaseCoinApp string storeapp "error + baseapp option"
  | EvParseConfig "error + config"
  | EvLoadOrGenPrivValidatorFS string
  | EvNewNode config clientcreator "error + tmnode"
  | EvNodeStart tmnode "error option"
  | EvWallets ethnode "wallet list"
  | EvOpen wallet string "error option"
  | EvStatus wallet string
  | EvSelfDerive wallet ethclient
  | EvClose wallet

type_synonym history = "event list"

text \<open>
  The collaborators. Each field answers one call, given the history at the call.
  A call that returns a Go \<open>error\<close> answers \<open>error option\<close> (\<open>None\<close> is \<open>nil\<close>) or
  \<open>error + 'a\<close>; a call with no error result that can end the process answers with a
  \<open>halt\<close>.

  \<open>MakeFullNode\<close>, \<open>StartNode\<close> (package \<open>modules/vm/cmd/utils\<close>) and
  \<open>createBaseCoinApp\<close> belong to this repository but their source is not part of the
  file studied; like the library calls they are parameters here.
\<close>

record env =
  MakeFullNode :: "history \<Rightarrow> ctx \<Rightarrow> halt + ethnode"
  StartNode :: "history \<Rightarrow> ethnode \<Rightarrow> halt option"
  Backends :: "history \<Rightarrow> ethnode \<Rightarrow> keystore list"
  MakePasswordList :: "history \<Rightarrow> ctx \<Rightarrow> halt + string list"
  MakeAddress :: "history \<Rightarrow> keystore \<Rightarrow> string \<Rightarrow> error + account"
  PromptPassword :: "history \<Rightarrow> string \<Rightarrow> error + string"
  Unlock :: "history \<Rightarrow> keystore \<Rightarrow> account \<Rightarrow> string \<Rightarrow> unlock_error option"
  Service :: "history \<Rightarrow> ethnode \<Rightarrow> error + backend"
  Attach :: "history \<Rightarrow> ethnode \<Rightarrow> error + client"
  NewEthermintApplication :: "history \<Rightarrow> backend \<Rightarrow> client \<Rightarrow> error + ethapp"
  NewServer :: "history \<Rightarrow> string \<Rightarrow> string \<Rightarrow> ethapp \<Rightarrow> error + server"
  ServerStart :: "history \<Rightarrow> server \<Rightarrow> error option"
  createBaseCoinApp :: "history \<Rightarrow> string \<Rightarrow> storeapp \<Rightarrow> error + baseapp option"
  ParseConfig :: "history \<Rightarrow> error + config"
  NewNode :: "history \<Rightarrow> config \<Rightarrow> clientcreator \<Rightarrow> error + tmnode"
  NodeStart :: "history \<Rightarrow> tmnode \<Rightarrow> error option"
  Wallets :: "history \<Rightarrow> ethnode \<Rightarrow> wallet list"
  WalletOpen :: "history \<Rightarrow> wallet \<Rightarrow> string \<Rightarrow> error option"
  WalletStatus :: "history \<Rightarrow> wallet \<Rightarrow> string"

subsection \<open>\<open>getPassPhrase\<close>\<close>

text \<open>
  With a non-empty password list the function returns an entry of the list and touches
  nothing else; \<open>passwords[i]\<close> with a negative \<open>i\<close> is Go's index panic. Without a list it
  prints the prompt (when not empty) and reads the passphrase from the console.
\<close>

definition getPassPhrase ::
  "env \<Rightarrow> history \<Rightarrow> string \<Rightarrow> bool \<Rightarrow> int \<Rightarrow> string list \<Rightarrow> (halt + string) \<times> event list"
where
  "getPassPhrase env h prompt confirmation i passwords =
    (if length passwords > 0 then
       (if i < int (length passwords) then
          (if i < 0 then (Inl (Panic ''index out of range''), [])
           else (Inr (passwords ! nat i), []))
        else (Inr (passwords ! (length passwords - 1)), []))
     else
       (let t0 = (if prompt \<noteq> [] then [EvPrintln [prompt]] else []);
            r1 = PromptPassword env (h @ t0) ''Passphrase: '';
            t1 = t0 @ [EvPromptPassword ''Passphrase: '' r1]
        in case r1 of
             Inl err \<Rightarrow> (Inl (Fatalf ''Failed to read passphrase: %v'' [err]), t1)
           | Inr password \<Rightarrow>
               if confirmation then
                 (let r2 = PromptPassword env (h @ t1) ''Repeat passphrase: '';
                      t2 = t1 @ [EvPromptPassword ''Repeat passphrase: '' r2]
                  in case r2 of
                       Inl err \<Rightarrow>
                         (Inl (Fatalf ''Failed to read passphrase confirmation: %v'' [err]), t2)
                     | Inr confirm \<Rightarrow>
                         if password \<noteq> confirm
                         then (Inl (Fatalf ''Passphrases do not match'' []), t2)
                         else (Inr password, t2))
               else (Inr password, t1)))"

subsection \<open>\<open>ambiguousAddrRecovery\<close>\<close>

text \<open>
  The search loop: \<open>ks.Unlock(a, auth)\<close> on each match in turn, stopping at the first that
  returns \<open>nil\<close>. The result is the variable \<open>match\<close>: \<open>None\<close> while it is \<open>nil\<close>.
\<close>

fun tryMatches ::
  "env \<Rightarrow> history \<Rightarrow> keystore \<Rightarrow> account list \<Rightarrow> string \<Rightarrow> account option \<times> event list"
where
  "tryMatches env h ks [] auth = (None, [])"
| "tryMatches env h ks (a # rest) auth =
     (let r = Unlock env h ks a auth;
          e = EvUnlock ks a auth r
      in if r = None then (Some a, [e])
         else (case tryMatches env (h @ [e]) ks rest auth of (m, t) \<Rightarrow> (m, e # t)))"

definition printMatches :: "account list \<Rightarrow> event list" where
  "printMatches as = map (\<lambda>a. EvPrintln [''  '', url_String (URL a)]) as"

definition ambiguousAddrRecovery ::
  "env \<Rightarrow> history \<Rightarrow> keystore \<Rightarrow> AmbiguousAddrError \<Rightarrow> string \<Rightarrow> (halt + account) \<times> event list"
where
  "ambiguousAddrRecovery env h ks err auth =
    (let t0 = [EvPrintf ''Multiple key files exist for address %x:\<newline>'' [Addr err]]
              @ printMatches (Matches err)
              @ [EvPrintln [''Testing your passphrase against all of them...'']]
     in case tryMatches env (h @ t0) ks (Matches err) auth of
          (None, t1) \<Rightarrow>
            (Inl (Fatalf ''None of the listed files could be unlocked.'' []), t0 @ t1)
        | (Some match, t1) \<Rightarrow>
            (Inr match,
             t0 @ t1
             @ [EvPrintf ''Your passphrase unlocked %s\<newline>'' [url_String (URL match)],
                EvPrintln [''In order to avoid this warning, remove the following duplicate key files:'']]
             @ printMatches (filter (\<lambda>a. a \<noteq> match) (Matches err))))"

subsection \<open>\<open>unlockAccount\<close>\<close>

text \<open>The text \<open>%v\<close> prints for an error value.\<close>

fun Error :: "unlock_error \<Rightarrow> string" where
  "Error ErrDecrypt = ''could not decrypt key with given passphrase''"
| "Error (OtherError m) = m"
| "Error (Ambiguous e) =
     ''multiple keys match address ('' @ concat (map (\<lambda>a. Path (URL a) @ '', '') (butlast (Matches e)))
       @ concat (map (\<lambda>a. Path (URL a)) (drop (length (Matches e) - 1) (Matches e))) @ '')''"

definition verr :: "unlock_error option \<Rightarrow> string" where
  "verr err = (case err of None \<Rightarrow> ''<nil>'' | Some e \<Rightarrow> Error e)"

text \<open>
  The loop \<open>for trials := 0; trials < 3; trials++\<close> together with the \<open>Fatalf\<close> that follows
  it. \<open>err\<close> is the variable of that name: the error of the last \<open>Unlock\<close>, \<open>None\<close> before
  the first. A \<open>break\<close> goes to the \<open>Fatalf\<close> directly.
\<close>

function unlockTrials ::
  "env \<Rightarrow> history \<Rightarrow> keystore \<Rightarrow> string \<Rightarrow> account \<Rightarrow> int \<Rightarrow> string list \<Rightarrow> nat
    \<Rightarrow> unlock_error option \<Rightarrow> (halt + account \<times> string) \<times> event list"
where
  "unlockTrials env h ks address account i passwords trials err =
    (if trials < 3 then
       (let prompt = ''Unlocking account '' @ address @ '' | Attempt '' @ itoa (trials + 1)
                     @ ''/'' @ itoa 3
        in case getPassPhrase env h prompt False i passwords of
             (Inl x, t0) \<Rightarrow> (Inl x, t0)
           | (Inr password, t0) \<Rightarrow>
               (let r = Unlock env (h @ t0) ks account password;
                    t1 = t0 @ [EvUnlock ks account password r]
                in case r of
                     None \<Rightarrow>
                       (Inr (account, password),
                        t1 @ [EvLog Info ''Unlocked account'' [(''address'', Address account)]])
                   | Some (Ambiguous e) \<Rightarrow>
                       (let t2 = t1 @ [EvLog Info ''Unlocked account''
                                        [(''address'', Address account)]]
                        in case ambiguousAddrRecovery env (h @ t2) ks e password of
                             (Inl x, t3) \<Rightarrow> (Inl x, t2 @ t3)
                           | (Inr a, t3) \<Rightarrow> (Inr (a, password), t2 @ t3))
                   | Some e \<Rightarrow>
                       if e \<noteq> ErrDecrypt
                       then (Inl (Fatalf ''Failed to unlock account %s (%v)''
                                    [address, verr (Some e)]), t1)
                       else (case unlockTrials env (h @ t1) ks address account i passwords
                                    (trials + 1) (Some e) of
                               (res, t2) \<Rightarrow> (res, t1 @ t2))))
     else (Inl (Fatalf ''Failed to unlock account %s (%v)'' [address, verr err]), []))"
  by pat_completeness auto
termination
  by (relation "measure (\<lambda>(env, h, ks, address, account, i, passwords, trials, err). 3 - trials)")
     auto

declare unlockTrials.simps [simp del]

definition unlockAccount ::
  "env \<Rightarrow> history \<Rightarrow> keystore \<Rightarrow> string \<Rightarrow> int \<Rightarrow> string list
    \<Rightarrow> (halt + account \<times> string) \<times> event list"
where
  "unlockAccount env h ks address i passwords =
    (let r = MakeAddress env h ks address;
         t0 = [EvMakeAddress ks address r]
     in case r of
          Inl err \<Rightarrow> (Inl (Fatalf ''Could not list accounts: %v'' [err]), t0)
        | Inr account \<Rightarrow>
            (case unlockTrials env (h @ t0) ks address account i passwords 0 None of
               (res, t1) \<Rightarrow> (res, t0 @ t1)))"

subsection \<open>\<open>startNode\<close>\<close>

text \<open>
  The loop \<open>for i, account := range unlocks\<close>: \<open>i\<close> is the position in the split list and
  advances on every entry, also on those skipped.
\<close>

fun unlockLoop ::
  "env \<Rightarrow> history \<Rightarrow> keystore \<Rightarrow> nat \<Rightarrow> string list \<Rightarrow> string list \<Rightarrow> (halt + unit) \<times> event list"
where
  "unlockLoop env h ks i [] passwords = (Inr (), [])"
| "unlockLoop env h ks i (account # rest) passwords =
     (let trimmed = TrimSpace account
      in if trimmed \<noteq> [] then
           (case unlockAccount env h ks trimmed (int i) passwords of
              (Inl x, t) \<Rightarrow> (Inl x, t)
            | (Inr _, t) \<Rightarrow>
                (case unlockLoop env (h @ t) ks (i + 1) rest passwords of
                   (res, t') \<Rightarrow> (res, t @ t')))
         else unlockLoop env h ks (i + 1) rest passwords)"

text \<open>
  \<open>startNode\<close> up to the \<open>go\<close> statement. \<open>Backends(...)[0]\<close> on an empty list is Go's index
  panic. The goroutine it starts is \<open>walletWatcher\<close> below; \<open>EvGo\<close> records the start.
\<close>

definition startNode ::
  "env \<Rightarrow> ctx \<Rightarrow> history \<Rightarrow> ethnode \<Rightarrow> (halt + unit) \<times> event list"
where
  "startNode env context h stack =
    (let r0 = StartNode env h stack;
         t0 = [EvStartNode stack r0]
     in case r0 of
          Some x \<Rightarrow> (Inl x, t0)
        | None \<Rightarrow>
            (let bs = Backends env (h @ t0) stack;
                 t1 = t0 @ [EvBackends stack bs]
             in case bs of
                  [] \<Rightarrow> (Inl (Panic ''index out of range''), t1)
                | ks # _ \<Rightarrow>
                    (let r2 = MakePasswordList env (h @ t1) context;
                         t2 = t1 @ [EvMakePasswordList r2]
                     in case r2 of
                          Inl x \<Rightarrow> (Inl x, t2)
                        | Inr passwords \<Rightarrow>
                            (let unlocks = Split (UnlockedAccountFlag context)
                             in case unlockLoop env (h @ t2) ks 0 unlocks passwords of
                                  (Inl x, t3) \<Rightarrow> (Inl x, t2 @ t3)
                                | (Inr _, t3) \<Rightarrow>
                                    (Inr (), t2 @ t3 @ [EvSubscribe stack, EvGo])))))"

subsection \<open>The wallet watcher\<close>

text \<open>The loop over the wallets already attached.\<close>

fun openWallets :: "env \<Rightarrow> history \<Rightarrow> ethclient \<Rightarrow> wallet list \<Rightarrow> event list" where
  "openWallets env h stateReader [] = []"
| "openWallets env h stateReader (wallet # rest) =
     (let r = WalletOpen env h wallet [];
          t = EvOpen wallet [] r #
              (case r of
                 Some err \<Rightarrow> [EvLog Warn ''Failed to open wallet''
                                [(''url'', url_String (wallet_URL wallet)), (''err'', err)]]
               | None \<Rightarrow> [EvSelfDerive wallet stateReader])
      in t @ openWallets env (h @ t) stateReader rest)"

text \<open>
  The loop \<open>for event := range events\<close>. The channel is the list of the events it
  delivers, in the order it delivers them; the source's loop ends only when the channel is
  closed, and the function gives the events of the body for what was delivered.
\<close>

fun watchEvents :: "env \<Rightarrow> history \<Rightarrow> ethclient \<Rightarrow> WalletEvent list \<Rightarrow> event list" where
  "watchEvents env h stateReader [] = []"
| "watchEvents env h stateReader (event # rest) =
     (let t =
        (if Arrive event then
           (let r = WalletOpen env h (Wallet event) [];
                t0 = [EvOpen (Wallet event) [] r]
            in case r of
                 Some err \<Rightarrow>
                   t0 @ [EvLog Warn ''New wallet appeared, failed to open''
                           [(''url'', url_String (wallet_URL (Wallet event))), (''err'', err)]]
               | None \<Rightarrow>
                   (let status = WalletStatus env (h @ t0) (Wallet event)
                    in t0 @ [EvStatus (Wallet event) status,
                             EvLog Info ''New wallet appeared''
                               [(''url'', url_String (wallet_URL (Wallet event))),
                                (''status'', status)],
                             EvSelfDerive (Wallet event) stateReader]))
         else [EvLog Info ''Old wallet dropped''
                 [(''url'', url_String (wallet_URL (Wallet event)))],
               EvClose (Wallet event)])
      in t @ watchEvents env (h @ t) stateReader rest)"

text \<open>
  The body of the goroutine, run on the history \<open>h\<close> at which it is scheduled, with the
  events the channel delivers.
\<close>

definition walletWatcher ::
  "env \<Rightarrow> history \<Rightarrow> ethnode \<Rightarrow> WalletEvent list \<Rightarrow> (halt + unit) \<times> event list"
where
  "walletWatcher env h stack events =
    (let r0 = Attach env h stack;
         t0 = [EvAttach stack r0]
     in case r0 of
          Inl err \<Rightarrow> (Inl (Fatalf ''Failed to attach to self: %v'' [err]), t0)
        | Inr rpcClient \<Rightarrow>
            (let stateReader = NewClient rpcClient;
                 ws = Wallets env (h @ t0) stack;
                 t1 = t0 @ [EvWallets stack ws];
                 t2 = t1 @ openWallets env (h @ t1) stateReader ws;
                 t3 = t2 @ watchEvents env (h @ t2) stateReader events
             in (Inr (), t3)))"

subsection \<open>\<open>startTendermint\<close>\<close>

text \<open>
  The function returns Go's pair \<open>(*node.Node, error)\<close>. The arguments of \<open>node.NewNode\<close>
  other than the configuration and the client creator are fixed functions of the
  configuration; loading the validator key is an event of its own.
\<close>

definition startTendermint ::
  "env \<Rightarrow> history \<Rightarrow> baseapp option \<Rightarrow> (tmnode option \<times> error option) \<times> event list"
where
  "startTendermint env h basecoinApp =
    (let r0 = ParseConfig env h;
         t0 = [EvParseConfig r0]
     in case r0 of
          Inl err \<Rightarrow> ((None, Some err), t0)
        | Inr cfg \<Rightarrow>
            (let papp = (case basecoinApp of
                           Some a \<Rightarrow> NewLocalClientCreator a
                         | None \<Rightarrow> DefaultClientCreator (ProxyApp cfg) (ABCI cfg) (DBDir cfg));
                 t1 = t0 @ [EvLoadOrGenPrivValidatorFS (PrivValidatorFile cfg)];
                 r2 = NewNode env (h @ t1) cfg papp;
                 t2 = t1 @ [EvNewNode cfg papp r2]
             in case r2 of
                  Inl err \<Rightarrow> ((None, Some err), t2)
                | Inr n \<Rightarrow>
                    (let r3 = NodeStart env (h @ t2) n;
                         t3 = t2 @ [EvNodeStart n r3]
                     in case r3 of
                          Some err \<Rightarrow> ((None, Some err), t3)
                        | None \<Rightarrow> ((Some n, None), t3))))"

subsection \<open>\<open>startServices\<close>\<close>

text \<open>The aggregate handle. Its fields are Go pointers and interfaces: \<open>None\<close> is \<open>nil\<close>.\<close>

record Services =
  backend :: "backend option"
  rpcClient :: "client option"
  emt :: "server option"
  tmNode :: "tmnode option"

text \<open>
  The function returns Go's pair \<open>(*Services, error)\<close> when it returns. \<open>context\<close> is the
  package-level command-line context. The local variables \<open>backend\<close> and \<open>rpcClient\<close>
  are primed, the fields of the handle having taken their names.
\<close>

definition startServices ::
  "env \<Rightarrow> ctx \<Rightarrow> history \<Rightarrow> string \<Rightarrow> storeapp
    \<Rightarrow> (halt + Services option \<times> error option) \<times> event list"
where
  "startServices env context h rootDir storeApp =
    (let r0 = MakeFullNode env h context;
         t0 = [EvMakeFullNode r0]
     in case r0 of
          Inl x \<Rightarrow> (Inl x, t0)
        | Inr emNode \<Rightarrow>
     (case startNode env context (h @ t0) emNode of
          (Inl x, t1) \<Rightarrow> (Inl x, t0 @ t1)
        | (Inr _, t1) \<Rightarrow>
     (let addr = ABCIAddrFlag context;
          abci = ABCIProtocolFlag context;
          r2 = Service env (h @ t0 @ t1) emNode;
          t2 = t0 @ t1 @ [EvService emNode r2]
      in case r2 of
          Inl err \<Rightarrow> (Inl (Fatalf ''ethereum backend service not running: %v'' [err]), t2)
        | Inr backend' \<Rightarrow>
     (let r3 = Attach env (h @ t2) emNode;
          t3 = t2 @ [EvAttach emNode r3]
      in case r3 of
          Inl err \<Rightarrow> (Inl (Fatalf ''Failed to attach to the inproc geth: %v'' [err]), t3)
        | Inr rpcClient' \<Rightarrow>
     (let r4 = NewEthermintApplication env (h @ t3) backend' rpcClient';
          t4 = t3 @ [EvNewEthermintApplication backend' rpcClient' r4]
      in case r4 of
          Inl err \<Rightarrow> (Inl (Exit 1), t4 @ [EvPrintln [err]])
        | Inr ethApp \<Rightarrow>
     (let t5 = t4 @ [EvSetLogger ''ethermint''];
          r6 = NewServer env (h @ t5) addr abci ethApp;
          t6 = t5 @ [EvNewServer addr abci ethApp r6]
      in case r6 of
          Inl err \<Rightarrow> (Inl (Exit 1), t6 @ [EvPrintln [err]])
        | Inr srv \<Rightarrow>
     (let t7 = t6 @ [EvSetLogger ''abci-server''];
          r8 = ServerStart env (h @ t7) srv;
          t8 = t7 @ [EvServerStart srv r8]
      in case r8 of
          Some err \<Rightarrow> (Inl (Exit 1), t8 @ [EvPrintln [err]])
        | None \<Rightarrow>
     (let r9 = createBaseCoinApp env (h @ t8) rootDir storeApp;
          t9 = t8 @ [EvCreateBaseCoinApp rootDir storeApp r9]
      in case r9 of
          Inl err \<Rightarrow> (Inl (Exit 1), t9 @ [EvPrintln [err]])
        | Inr basecoinApp \<Rightarrow>
     (case startTendermint env (h @ t9) basecoinApp of
          ((n, Some err), t10) \<Rightarrow> (Inl (Exit 1), t9 @ t10 @ [EvPrintln [err]])
        | ((n, None), t10) \<Rightarrow>
            (Inr (Some \<lparr>backend = Some backend', rpcClient = Some rpcClient',
                        emt = Some srv, tmNode = n\<rparr>, None),
             t9 @ t10))))))))))"

subsection \<open>Reading a trace\<close>

text \<open>The prompts issued on the console, in order.\<close>

definition promptOf :: "event \<Rightarrow> string option" where
  "promptOf e = (case e of EvPromptPassword p r \<Rightarrow> Some p | _ \<Rightarrow> None)"

definition prompts :: "event list \<Rightarrow> string list" where
  "prompts t = List.map_filter promptOf t"

text \<open>
  The calls of \<open>ks.Unlock\<close>, in order, each with the account and the password it was
  given, and their number.
\<close>

definition unlockCall :: "event \<Rightarrow> (account \<times> string) option" where
  "unlockCall e = (case e of EvUnlock ks a p r \<Rightarrow> Some (a, p) | _ \<Rightarrow> None)"

definition unlockCalls :: "event list \<Rightarrow> (account \<times> string) list" where
  "unlockCalls t = List.map_filter unlockCall t"

definition unlockCount :: "event list \<Rightarrow> nat" where
  "unlockCount t = length (unlockCalls t)"

text \<open>The \<open>Fatalf\<close> that follows the retry loop.\<close>

definition failedToUnlock :: "string \<Rightarrow> unlock_error option \<Rightarrow> halt" where
  "failedToUnlock address err = Fatalf ''Failed to unlock account %s (%v)'' [address, verr err]"

text \<open>The address strings handed to \<open>MakeAddress\<close> for resolution, in order.\<close>

definition resolutionOf :: "event \<Rightarrow> string option" where
  "resolutionOf e = (case e of EvMakeAddress ks a r \<Rightarrow> Some a | _ \<Rightarrow> None)"

definition resolutions :: "event list \<Rightarrow> string list" where
  "resolutions t = List.map_filter resolutionOf t"

text \<open>
  What the watcher does to the wallets: the calls of \<open>Open\<close> and \<open>Close\<close> in order
  (\<open>True\<close> for \<open>Open\<close>), the wallets whose \<open>Open\<close> returned \<open>nil\<close> and those whose \<open>Open\<close>
  failed, the self-derivations started (wallet and chain-state reader), and the
  warnings logged.
\<close>

definition storeEffect :: "event \<Rightarrow> (bool \<times> wallet) option" where
  "storeEffect e = (case e of EvOpen w p r \<Rightarrow> Some (True, w) | EvClose w \<Rightarrow> Some (False, w)
                    | _ \<Rightarrow> None)"

definition storeEffects :: "event list \<Rightarrow> (bool \<times> wallet) list" where
  "storeEffects t = List.map_filter storeEffect t"

definition openedOf :: "event \<Rightarrow> wallet option" where
  "openedOf e = (case e of EvOpen w p None \<Rightarrow> Some w | _ \<Rightarrow> None)"

definition opened :: "event list \<Rightarrow> wallet list" where
  "opened t = List.map_filter openedOf t"

definition failedOpenOf :: "event \<Rightarrow> wallet option" where
  "failedOpenOf e = (case e of EvOpen w p (Some err) \<Rightarrow> Some w | _ \<Rightarrow> None)"

definition failedOpens :: "event list \<Rightarrow> wallet list" where
  "failedOpens t = List.map_filter failedOpenOf t"

definition derivationOf :: "event \<Rightarrow> (wallet \<times> ethclient) option" where
  "derivationOf e = (case e of EvSelfDerive w r \<Rightarrow> Some (w, r) | _ \<Rightarrow> None)"

definition derivations :: "event list \<Rightarrow> (wallet \<times> ethclient) list" where
  "derivations t = List.map_filter derivationOf t"

definition warningOf :: "event \<Rightarrow> string option" where
  "warningOf e = (case e of EvLog Warn m kv \<Rightarrow> Some m | _ \<Rightarrow> None)"

definition warnings :: "event list \<Rightarrow> string list" where
  "warnings t = List.map_filter warningOf t"

text \<open>
  The kinds of event the unlocking of accounts adds between the listing of the key-store
  backends and the subscription to wallet events.
\<close>

definition unlockEvent :: "event \<Rightarrow> bool" where
  "unlockEvent e = (case e of
       EvMakePasswordList r \<Rightarrow> True
     | EvMakeAddress ks a r \<Rightarrow> True
     | EvPrintln s \<Rightarrow> True
     | EvPrintf f a \<Rightarrow> True
     | EvPromptPassword p r \<Rightarrow> True
     | EvUnlock ks a p r \<Rightarrow> True
     | EvLog l m kv \<Rightarrow> True
     | _ \<Rightarrow> False)"

text \<open>
  The clients \<open>Attach\<close> returned, the clients handed to \<open>NewEthermintApplication\<close>, and the
  chain-state readers handed to \<open>SelfDerive\<close>. \<open>sharedClient t t'\<close>: every reader of the
  trace \<open>t'\<close> wraps the client every application of the trace \<open>t\<close> was built with.
\<close>

definition attachedOf :: "event \<Rightarrow> client option" where
  "attachedOf e = (case e of EvAttach n (Inr c) \<Rightarrow> Some c | _ \<Rightarrow> None)"

definition attached :: "event list \<Rightarrow> client list" where
  "attached t = List.map_filter attachedOf t"

definition bridgeClientOf :: "event \<Rightarrow> client option" where
  "bridgeClientOf e = (case e of EvNewEthermintApplication b c r \<Rightarrow> Some c | _ \<Rightarrow> None)"

definition bridgeClients :: "event list \<Rightarrow> client list" where
  "bridgeClients t = List.map_filter bridgeClientOf t"

definition readers :: "event list \<Rightarrow> ethclient list" where
  "readers t = map snd (derivations t)"

definition sharedClient :: "event list \<Rightarrow> event list \<Rightarrow> bool" where
  "sharedClient t t' = (\<forall>c \<in> set (bridgeClients t). \<forall>r \<in> set (readers t'). r = NewClient c)"











subsection \<open>Example environments\<close>

text \<open>
  An environment in which every collaborator succeeds: the key store unlocks any account
  with any password, the password file (when one is named) holds the single line \<open>p1\<close>,
  the console answers \<open>secret\<close>, and every \<open>Attach\<close> hands out a client of its own, numbered
  by the attachments made before.
\<close>

definition isAttach :: "event \<Rightarrow> bool" where
  "isAttach e = (case e of EvAttach n r \<Rightarrow> True | _ \<Rightarrow> False)"

definition cfg0 :: config where
  "cfg0 = \<lparr>ProxyApp = ''tcp://127.0.0.1:46658'', ABCI = ''socket'', DBDir = ''data'',
            PrivValidatorFile = ''priv_validator.json''\<rparr>"

definition env0 :: env where
  "env0 = \<lparr>
     MakeFullNode = (\<lambda>h c. Inr (EthNode 0)),
     StartNode = (\<lambda>h n. None),
     Backends = (\<lambda>h n. [KeyStore 0]),
     MakePasswordList = (\<lambda>h c. Inr (if PasswordFileFlag c = [] then [] else [''p1''])),
     MakeAddress = (\<lambda>h ks a. Inr \<lparr>Address = a, URL = \<lparr>Scheme = ''keystore'', Path = a\<rparr>\<rparr>),
     PromptPassword = (\<lambda>h p. Inr ''secret''),
     Unlock = (\<lambda>h ks a p. None),
     Service = (\<lambda>h n. Inr (Backend 0)),
     Attach = (\<lambda>h n. Inr (Client (length (filter isAttach h)))),
     NewEthermintApplication = (\<lambda>h b c. Inr (EthermintApplication 0)),
     NewServer = (\<lambda>h a p app. Inr (Server 0)),
     ServerStart = (\<lambda>h s. None),
     createBaseCoinApp = (\<lambda>h d s. Inr (Some (BaseApp 0))),
     ParseConfig = (\<lambda>h. Inr cfg0),
     NewNode = (\<lambda>h c p. Inr (TmNode 0)),
     NodeStart = (\<lambda>h n. None),
     Wallets = (\<lambda>h n. []),
     WalletOpen = (\<lambda>h w p. None),
     WalletStatus = (\<lambda>h w. ''ok'')\<rparr>"

definition ctx0 :: ctx where
  "ctx0 = \<lparr>ABCIAddrFlag = ''tcp://0.0.0.0:8848'', ABCIProtocolFlag = ''socket'',
            UnlockedAccountFlag = ''0xABC, , 0xDEF'', PasswordFileFlag = ''passwords.txt''\<rparr>"

text \<open>
  \<open>envRetry k final\<close>: the key store answers the first \<open>k\<close> calls of \<open>Unlock\<close> in a
  history with a decryption error and every later call with \<open>final\<close>.
  \<open>envOnly b pw\<close>: only the key file \<open>b\<close> unlocks, and only with the password \<open>pw\<close>.
  \<open>keyFile path\<close>: the key file at \<open>path\<close> of the one address \<open>0xABC\<close>.
\<close>

definition envRetry :: "nat \<Rightarrow> unlock_error option \<Rightarrow> env" where
  "envRetry k final =
     env0\<lparr>Unlock := (\<lambda>h ks a p. if unlockCount h < k then Some ErrDecrypt else final)\<rparr>"



text \<open>
  Two wallets are attached when the watcher starts, and the second never opens.
\<close>

definition ledger :: "nat \<Rightarrow> wallet" where
  "ledger n = WalletRef n \<lparr>Scheme = ''ledger'', Path = itoa n\<rparr>"

definition envWallets :: env where
  "envWallets = env0\<lparr>Wallets := (\<lambda>h n. [ledger 1, ledger 2]),
                     WalletOpen := (\<lambda>h w p. if w = ledger 2 then Some ''device locked'' else None)\<rparr>"



section \<open>Properties\<close>

subsection \<open>Where a password comes from\<close>

text \<open>
  C6. With a non-empty password list and an index that is not negative,
  \<open>getPassPhrase\<close> returns the entry at the index, and the last entry whenever the index
  is at or beyond the length of the list; it prints nothing and asks nothing. With no
  list it asks on the console with the prompt \<open>Passphrase: \<close> (\<open>PromptPassword\<close>, which
  does not echo), exactly once when no confirmation is requested, and what it returns
  is what the console read.
\<close>

theorem getPassPhrase_source:
  "(passwords \<noteq> [] \<and> 0 \<le> i \<longrightarrow>
      getPassPhrase env h prompt confirmation i passwords
        = (Inr (passwords ! min (nat i) (length passwords - 1)), []))
   \<and> (passwords \<noteq> [] \<and> int (length passwords) \<le> i \<longrightarrow>
      getPassPhrase env h prompt confirmation i passwords = (Inr (last passwords), []))
   \<and> (passwords = [] \<longrightarrow>
      prompts (snd (getPassPhrase env h prompt False i passwords)) = [''Passphrase: '']
      \<and> (\<forall>password. fst (getPassPhrase env h prompt False i passwords) = Inr password \<longrightarrow>
            PromptPassword env (h @ (if prompt \<noteq> [] then [EvPrintln [prompt]] else []))
              ''Passphrase: '' = Inr password))"
proof (intro conjI impI)
  assume a: "passwords \<noteq> [] \<and> 0 \<le> i"
  then have "min (nat i) (length passwords - 1)
      = (if i < int (length passwords) then nat i else length passwords - 1)"
    by auto
  with a show "getPassPhrase env h prompt confirmation i passwords
        = (Inr (passwords ! min (nat i) (length passwords - 1)), [])"
    by (simp add: getPassPhrase_def)
next
  assume a: "passwords \<noteq> [] \<and> int (length passwords) \<le> i"
  then show "getPassPhrase env h prompt confirmation i passwords = (Inr (last passwords), [])"
    by (simp add: getPassPhrase_def last_conv_nth)
next
  assume a: "passwords = []"
  then show "prompts (snd (getPassPhrase env h prompt False i passwords)) = [''Passphrase: '']"
    by (simp add: getPassPhrase_def Let_def prompts_def promptOf_def split: sum.splits)
next
  assume a: "passwords = []"
  then show "\<forall>password. fst (getPassPhrase env h prompt False i passwords) = Inr password \<longrightarrow>
            PromptPassword env (h @ (if prompt \<noteq> [] then [EvPrintln [prompt]] else []))
              ''Passphrase: '' = Inr password"
    by (simp add: getPassPhrase_def Let_def split: sum.splits)
qed

theorem getPassPhrase_source_witness:
  "getPassPhrase env0 [] ''Unlocking'' False 2 [''p1''] = (Inr ''p1'', [])
   \<and> getPassPhrase env0 [] ''Unlocking'' False 0 [''p1'', ''p2''] = (Inr ''p1'', [])
   \<and> getPassPhrase env0 [] ''Unlocking'' False 5 [''p1'', ''p2''] = (Inr ''p2'', [])
   \<and> prompts (snd (getPassPhrase env0 [] ''Unlocking'' False 0 [])) = [''Passphrase: '']
   \<and> fst (getPassPhrase env0 [] ''Unlocking'' False 0 []) = Inr ''secret''"
proof -
  have 1: "getPassPhrase env0 [] ''Unlocking'' False 2 [''p1''] = (Inr ''p1'', [])"
    using getPassPhrase_source [of "[''p1'']" 2 env0 "[]" "''Unlocking''" False] by simp
  have 2: "getPassPhrase env0 [] ''Unlocking'' False 0 [''p1'', ''p2''] = (Inr ''p1'', [])"
    using getPassPhrase_source [of "[''p1'', ''p2'']" 0 env0 "[]" "''Unlocking''" False] by simp
  have 3: "getPassPhrase env0 [] ''Unlocking'' False 5 [''p1'', ''p2''] = (Inr ''p2'', [])"
    using getPassPhrase_source [of "[''p1'', ''p2'']" 5 env0 "[]" "''Unlocking''" False] by simp
  have 4: "prompts (snd (getPassPhrase env0 [] ''Unlocking'' False 0 [])) = [''Passphrase: '']"
    using getPassPhrase_source [of "[]" 0 env0 "[]" "''Unlocking''" False] by simp
  have 5: "fst (getPassPhrase env0 [] ''Unlocking'' False 0 []) = Inr ''secret''"
    by (simp add: getPassPhrase_def env0_def)
  from 1 2 3 4 5 show ?thesis by simp
qed

subsection \<open>Projections of a trace\<close>

lemma map_filter_append: "List.map_filter f (xs @ ys) = List.map_filter f xs @ List.map_filter f ys"
  by (simp add: List.map_filter_def)

lemma unlockCalls_append [simp]: "unlockCalls (a @ b) = unlockCalls a @ unlockCalls b"
  by (simp add: unlockCalls_def map_filter_append)

lemma unlockCalls_Nil [simp]: "unlockCalls [] = []"
  by (simp add: unlockCalls_def)

lemma unlockCalls_Cons: "unlockCalls (e # t) = (case unlockCall e of None \<Rightarrow> unlockCalls t | Some c \<Rightarrow> c # unlockCalls t)"
  by (simp add: unlockCalls_def split: option.splits)

lemma unlockCount_append [simp]: "unlockCount (a @ b) = unlockCount a + unlockCount b"
  by (simp add: unlockCount_def)

lemma map_filter_None: "\<forall>e \<in> set t. f e = None \<Longrightarrow> List.map_filter f t = []"
  by (induction t) simp_all

lemma in_map_filterD: "c \<in> set (List.map_filter f t) \<Longrightarrow> \<exists>e \<in> set t. f e = Some c"
  by (auto simp: List.map_filter_def)

subsection \<open>Ambiguous-match recovery\<close>




subsection \<open>The retry loop of \<open>unlockAccount\<close>\<close>

text \<open>
  Obtaining the password succeeds and calls no \<open>Unlock\<close> when a list is supplied (and the
  index is not negative) or when the console never fails.
\<close>

lemma getPassPhrase_ok:
  assumes "(passwords \<noteq> [] \<and> 0 \<le> i) \<or> (passwords = [] \<and> (\<forall>h' p. \<exists>s. PromptPassword env h' p = Inr s))"
  shows "\<exists>pw t0. getPassPhrase env h prompt False i passwords = (Inr pw, t0) \<and> unlockCalls t0 = []"
proof (cases "passwords = []")
  case True
  with assms have "\<forall>h' p. \<exists>s. PromptPassword env h' p = Inr s" by simp
  then obtain s where "PromptPassword env (h @ (if prompt \<noteq> [] then [EvPrintln [prompt]] else [])) ''Passphrase: '' = Inr s"
    by blast
  with True show ?thesis
    by (simp add: getPassPhrase_def Let_def unlockCalls_Cons unlockCall_def)
next
  case False
  with assms show ?thesis by (simp add: getPassPhrase_def)
qed


lemma unlockTrials_unfold:
  "unlockTrials env h ks address account i passwords trials err =
    (if trials < 3 then
       (case getPassPhrase env h (''Unlocking account '' @ address @ '' | Attempt '' @ itoa (trials + 1)
                     @ ''/'' @ itoa 3) False i passwords of
             (Inl x, t0) \<Rightarrow> (Inl x, t0)
           | (Inr password, t0) \<Rightarrow>
               (case Unlock env (h @ t0) ks account password of
                     None \<Rightarrow>
                       (Inr (account, password),
                        t0 @ [EvUnlock ks account password None,
                              EvLog Info ''Unlocked account'' [(''address'', Address account)]])
                   | Some (Ambiguous e) \<Rightarrow>
                       (case ambiguousAddrRecovery env (h @ t0 @ [EvUnlock ks account password (Some (Ambiguous e)),
                              EvLog Info ''Unlocked account'' [(''address'', Address account)]]) ks e password of
                             (Inl x, t3) \<Rightarrow> (Inl x, t0 @ [EvUnlock ks account password (Some (Ambiguous e)),
                              EvLog Info ''Unlocked account'' [(''address'', Address account)]] @ t3)
                           | (Inr a, t3) \<Rightarrow> (Inr (a, password), t0 @ [EvUnlock ks account password (Some (Ambiguous e)),
                              EvLog Info ''Unlocked account'' [(''address'', Address account)]] @ t3))
                   | Some ErrDecrypt \<Rightarrow>
                       (case unlockTrials env (h @ t0 @ [EvUnlock ks account password (Some ErrDecrypt)]) ks address account i passwords
                                    (trials + 1) (Some ErrDecrypt) of
                               (res, t2) \<Rightarrow> (res, t0 @ [EvUnlock ks account password (Some ErrDecrypt)] @ t2))
                   | Some (OtherError m) \<Rightarrow> (Inl (failedToUnlock address (Some (OtherError m))),
                          t0 @ [EvUnlock ks account password (Some (OtherError m))])))
     else (Inl (failedToUnlock address err), []))"
  by (subst unlockTrials.simps)
     (simp add: Let_def failedToUnlock_def split: prod.splits sum.splits option.splits unlock_error.splits)

lemma unlockTrials_retry:
  assumes pw: "(passwords \<noteq> [] \<and> 0 \<le> i) \<or> (passwords = [] \<and> (\<forall>h' p. \<exists>s. PromptPassword env h' p = Inr s))"
    and ans: "\<And>h' p. Unlock env h' ks account p = (if unlockCount h' < T then Some ErrDecrypt else final)"
    and fin: "final = None \<or> (\<exists>m. final = Some (OtherError m))"
  shows "trials \<le> 3 \<Longrightarrow>
     unlockCount (snd (unlockTrials env h ks address account i passwords trials err))
        = min (3 - trials) (T - unlockCount h + 1)
     \<and> fst (unlockTrials env h ks address account i passwords trials err)
        = (if 3 - trials \<le> T - unlockCount h
           then Inl (failedToUnlock address (if trials < 3 then Some ErrDecrypt else err))
           else (case final of
                   None \<Rightarrow> Inr (account, snd (last (unlockCalls (snd (unlockTrials env h ks address account i passwords trials err)))))
                 | Some e \<Rightarrow> Inl (failedToUnlock address (Some e))))"
proof (induction "3 - trials" arbitrary: trials h err)
  case 0
  then have "trials = 3" by simp
  then show ?case
    by (subst (1 2 3) unlockTrials_unfold) (simp add: unlockCount_def)
next
  case (Suc n)
  then have lt: "trials < 3" by simp
  let ?prompt = "''Unlocking account '' @ address @ '' | Attempt '' @ itoa (trials + 1) @ ''/'' @ itoa 3"
  obtain pw' t0 where g: "getPassPhrase env h ?prompt False i passwords = (Inr pw', t0)"
    and c0: "unlockCalls t0 = []"
    using getPassPhrase_ok [OF pw] by blast
  have u0: "unlockCount (h @ t0) = unlockCount h"
    using c0 by (simp add: unlockCount_def)
  show ?case
  proof (cases "unlockCount h < T")
    case True
    have a: "Unlock env (h @ t0) ks account pw' = Some ErrDecrypt"
      using ans True u0 by simp
    let ?h1 = "h @ t0 @ [EvUnlock ks account pw' (Some ErrDecrypt)]"
    have c1: "unlockCount ?h1 = unlockCount h + 1"
      using c0 by (simp add: unlockCount_def unlockCalls_Cons unlockCall_def)
    have n: "n = 3 - (trials + 1)" and le: "trials + 1 \<le> 3"
      using Suc.hyps(2) by simp_all
    note ih = Suc.hyps(1) [OF n le, of ?h1 "Some ErrDecrypt"]
    obtain res t2 where rec: "unlockTrials env ?h1 ks address account i passwords (trials + 1) (Some ErrDecrypt) = (res, t2)"
      by (cases "unlockTrials env ?h1 ks address account i passwords (trials + 1) (Some ErrDecrypt)")
    have step: "unlockTrials env h ks address account i passwords trials err
        = (res, t0 @ [EvUnlock ks account pw' (Some ErrDecrypt)] @ t2)"
      apply (subst unlockTrials_unfold)
      apply (simp only: lt if_True g prod.case sum.case a option.case unlock_error.case rec)
      done
    have cnt: "unlockCalls (t0 @ [EvUnlock ks account pw' (Some ErrDecrypt)] @ t2)
        = (account, pw') # unlockCalls t2"
      using c0 by (simp add: unlockCalls_Cons unlockCall_def)
    have ih1: "unlockCount t2 = min (3 - (trials + 1)) (T - unlockCount ?h1 + 1)"
      and ih2: "res = (if 3 - (trials + 1) \<le> T - unlockCount ?h1
           then Inl (failedToUnlock address (if trials + 1 < 3 then Some ErrDecrypt else Some ErrDecrypt))
           else (case final of
                   None \<Rightarrow> Inr (account, snd (last (unlockCalls t2)))
                 | Some e \<Rightarrow> Inl (failedToUnlock address (Some e))))"
      using ih unfolding rec fst_conv snd_conv by simp_all
    have cond: "(3 - (trials + 1) \<le> T - unlockCount ?h1) = (3 - trials \<le> T - unlockCount h)"
      unfolding c1 using True lt by arith
    have count: "unlockCount (t0 @ [EvUnlock ks account pw' (Some ErrDecrypt)] @ t2)
        = min (3 - trials) (T - unlockCount h + 1)"
    proof -
      have "unlockCount (t0 @ [EvUnlock ks account pw' (Some ErrDecrypt)] @ t2)
          = 1 + unlockCount t2"
        unfolding unlockCount_def cnt by simp
      also have "\<dots> = 1 + min (3 - (trials + 1)) (T - (unlockCount h + 1) + 1)"
        using ih1 unfolding c1 by simp
      also have "\<dots> = min (3 - trials) (T - unlockCount h + 1)"
        using True lt by arith
      finally show ?thesis .
    qed
    have ne: "unlockCalls t2 \<noteq> []" if "\<not> 3 - trials \<le> T - unlockCount h"
    proof -
      from that cond have "\<not> 3 - (trials + 1) \<le> T - unlockCount ?h1" by simp
      with ih1 have "0 < unlockCount t2" by simp
      then show ?thesis by (auto simp: unlockCount_def)
    qed
    have lastc: "last (unlockCalls (t0 @ [EvUnlock ks account pw' (Some ErrDecrypt)] @ t2))
        = last (unlockCalls t2)" if "\<not> 3 - trials \<le> T - unlockCount h"
      unfolding cnt using ne [OF that] by simp
    show ?thesis
      unfolding step fst_conv snd_conv count
      using ih2 cond lastc lt by (simp split: option.splits)
  next
    case False
    have a: "Unlock env (h @ t0) ks account pw' = final"
      using ans False u0 by simp
    from fin show ?thesis
    proof
      assume f: "final = None"
      have step: "unlockTrials env h ks address account i passwords trials err
          = (Inr (account, pw'), t0 @ [EvUnlock ks account pw' None,
               EvLog Info ''Unlocked account'' [(''address'', Address account)]])"
        apply (subst unlockTrials_unfold)
        apply (simp only: lt if_True g prod.case sum.case a f option.case)
        done
      show ?thesis
        using False lt c0 unfolding step f fst_conv snd_conv
        by (simp add: unlockCount_def unlockCalls_Cons unlockCall_def)
    next
      assume "\<exists>m. final = Some (OtherError m)"
      then obtain m where f: "final = Some (OtherError m)" by blast
      have step: "unlockTrials env h ks address account i passwords trials err
          = (Inl (failedToUnlock address (Some (OtherError m))),
             t0 @ [EvUnlock ks account pw' (Some (OtherError m))])"
        apply (subst unlockTrials_unfold)
        apply (simp only: lt if_True g prod.case sum.case a f option.case unlock_error.case)
        done
      show ?thesis
        using False lt c0 unfolding step f fst_conv snd_conv
        by (simp add: unlockCount_def unlockCalls_Cons unlockCall_def)
    qed
  qed
qed


text \<open>
  C4. The address resolves, passwords can be obtained, and the key store answers the
  first \<open>k\<close> attempts with a decryption error and any further attempt with \<open>final\<close>, which
  is either success or an error that is neither a decryption error nor an ambiguous
  match. Then \<open>unlockAccount\<close> calls \<open>Unlock\<close> exactly \<open>min 3 (k + 1)\<close> times:
  three times when every attempt yields a decryption error (\<open>3 \<le> k\<close>), and then the
  process ends with \<open>Fatalf("Failed to unlock account ...")\<close>; otherwise the attempt that
  yields \<open>final\<close> is the last one, it returns the account and the password of that attempt
  when it succeeded, and ends the process with the same \<open>Fatalf\<close> when it failed. With
  \<open>k = 0\<close> this is exactly one attempt.
\<close>

theorem unlockAccount_retry:
  assumes addr: "MakeAddress env h ks address = Inr account"
    and pw: "(passwords \<noteq> [] \<and> 0 \<le> i)
             \<or> (passwords = [] \<and> (\<forall>h' p. \<exists>s. PromptPassword env h' p = Inr s))"
    and ans: "\<And>h' p. Unlock env h' ks account p
                = (if unlockCount h' < unlockCount h + k then Some ErrDecrypt else final)"
    and fin: "final = None \<or> (\<exists>m. final = Some (OtherError m))"
  shows "unlockCount (snd (unlockAccount env h ks address i passwords)) = min 3 (k + 1)
     \<and> fst (unlockAccount env h ks address i passwords)
        = (if 3 \<le> k
           then Inl (Fatalf ''Failed to unlock account %s (%v)''
                      [address, ''could not decrypt key with given passphrase''])
           else (case final of
                   None \<Rightarrow> Inr (account,
                              snd (last (unlockCalls (snd (unlockAccount env h ks address i passwords)))))
                 | Some e \<Rightarrow> Inl (Fatalf ''Failed to unlock account %s (%v)'' [address, Error e])))"
proof -
  let ?h0 = "h @ [EvMakeAddress ks address (Inr account)]"
  have c: "unlockCount ?h0 = unlockCount h"
    by (simp add: unlockCount_def unlockCalls_Cons unlockCall_def)
  note l = unlockTrials_retry [OF pw ans fin, of 0 ?h0 address None, simplified c]
  obtain res t where r: "unlockTrials env ?h0 ks address account i passwords 0 None = (res, t)"
    by (cases "unlockTrials env ?h0 ks address account i passwords 0 None")
  have ua: "unlockAccount env h ks address i passwords
      = (res, EvMakeAddress ks address (Inr account) # t)"
    by (simp add: unlockAccount_def addr r)
  have uc: "unlockCalls (EvMakeAddress ks address (Inr account) # t) = unlockCalls t"
    by (simp add: unlockCalls_Cons unlockCall_def)
  show ?thesis
    using l unfolding ua r fst_conv snd_conv unlockCount_def uc
    by (auto simp: failedToUnlock_def verr_def min_def split: option.splits)
qed

theorem unlockAccount_retry_witness:
  "unlockCount (snd (unlockAccount (envRetry 3 None) [] (KeyStore 0) ''0xABC'' 0 [''p1''])) = 3
   \<and> fst (unlockAccount (envRetry 3 None) [] (KeyStore 0) ''0xABC'' 0 [''p1''])
       = Inl (Fatalf ''Failed to unlock account %s (%v)''
               [''0xABC'', ''could not decrypt key with given passphrase''])
   \<and> unlockCount (snd (unlockAccount (envRetry 0 (Some (OtherError ''no key for given address or file'')))
         [] (KeyStore 0) ''0xABC'' 0 [''p1''])) = 1
   \<and> fst (unlockAccount (envRetry 0 (Some (OtherError ''no key for given address or file'')))
         [] (KeyStore 0) ''0xABC'' 0 [''p1''])
       = Inl (Fatalf ''Failed to unlock account %s (%v)''
               [''0xABC'', ''no key for given address or file''])
   \<and> unlockCount (snd (unlockAccount (envRetry 1 None) [] (KeyStore 0) ''0xABC'' 0 [])) = 2
   \<and> fst (unlockAccount (envRetry 1 None) [] (KeyStore 0) ''0xABC'' 0 [])
       = Inr (\<lparr>Address = ''0xABC'', URL = \<lparr>Scheme = ''keystore'', Path = ''0xABC''\<rparr>\<rparr>, ''secret'')"
proof -
  let ?acct = "\<lparr>Address = ''0xABC'', URL = \<lparr>Scheme = ''keystore'', Path = ''0xABC''\<rparr>\<rparr>"
  have addr: "MakeAddress (envRetry k final) [] (KeyStore 0) ''0xABC'' = Inr ?acct" for k final
    by (simp add: envRetry_def env0_def)
  have ans: "Unlock (envRetry k final) h' (KeyStore 0) ?acct p
      = (if unlockCount h' < unlockCount [] + k then Some ErrDecrypt else final)" for k final h' p
    by (simp add: envRetry_def env0_def unlockCount_def)
  have pwl: "([''p1''] \<noteq> [] \<and> (0::int) \<le> 0)
      \<or> ([''p1''] = [] \<and> (\<forall>h' p. \<exists>s. PromptPassword (envRetry k final) h' p = Inr s))" for k final
    by simp
  have pwp: "(([]::string list) \<noteq> [] \<and> (0::int) \<le> 0)
      \<or> (([]::string list) = [] \<and> (\<forall>h' p. \<exists>s. PromptPassword (envRetry k final) h' p = Inr s))" for k final
    by (simp add: envRetry_def env0_def)
  note a = unlockAccount_retry [OF addr pwl ans, of None 3]
  note b = unlockAccount_retry [OF addr pwl ans, of "Some (OtherError ''no key for given address or file'')" 0]
  note c = unlockAccount_retry [OF addr pwp ans, of None 1]
  have last: "snd (last (unlockCalls (snd (unlockAccount (envRetry 1 None) [] (KeyStore 0) ''0xABC'' 0 []))))
      = ''secret''"
    by code_simp
  from a b c last show ?thesis by simp
qed

subsection \<open>The events of an unlock\<close>

text \<open>
  Which events the unlock functions can add. With a password list, \<open>getPassPhrase\<close> adds
  none and every \<open>Unlock\<close>, in the retry loop and in the recovery alike, carries the
  password the list gives for the index.
\<close>

lemma getPassPhrase_events:
  "(passwords \<noteq> [] \<longrightarrow>
      snd (getPassPhrase env h prompt False i passwords) = []
      \<and> (\<forall>pw. fst (getPassPhrase env h prompt False i passwords) = Inr pw
            \<longrightarrow> pw = passwords ! min (nat i) (length passwords - 1)))
   \<and> (passwords = [] \<longrightarrow>
      (\<forall>e \<in> set (snd (getPassPhrase env h prompt False i passwords)).
          (\<exists>s. e = EvPrintln s) \<or> (\<exists>p r. e = EvPromptPassword p r)))"
proof (cases "passwords = []")
  case True
  then show ?thesis
    by (auto simp: getPassPhrase_def Let_def split: sum.splits)
next
  case False
  then have "0 \<le> i \<Longrightarrow> min (nat i) (length passwords - 1)
      = (if i < int (length passwords) then nat i else length passwords - 1)"
    by auto
  with False show ?thesis
    by (auto simp: getPassPhrase_def)
qed

lemma tryMatches_events:
  "\<forall>e \<in> set (snd (tryMatches env h ks ms auth)). \<exists>a r. e = EvUnlock ks a auth r"
proof (induction ms arbitrary: h)
  case Nil
  then show ?case by simp
next
  case (Cons a ms)
  show ?case
    using Cons.IH [of "h @ [EvUnlock ks a auth (Unlock env h ks a auth)]"]
    by (auto simp: Let_def split: prod.splits)
qed

lemma ambiguousAddrRecovery_events:
  "\<forall>e \<in> set (snd (ambiguousAddrRecovery env h ks err auth)).
      (\<exists>s. e = EvPrintln s) \<or> (\<exists>f a. e = EvPrintf f a) \<or> (\<exists>a r. e = EvUnlock ks a auth r)"
proof -
  let ?t0 = "[EvPrintf ''Multiple key files exist for address %x:\<newline>'' [Addr err]]
              @ printMatches (Matches err)
              @ [EvPrintln [''Testing your passphrase against all of them...'']]"
  obtain m t1 where tm: "tryMatches env (h @ ?t0) ks (Matches err) auth = (m, t1)"
    by (cases "tryMatches env (h @ ?t0) ks (Matches err) auth")
  have t1: "\<forall>e \<in> set t1. \<exists>a r. e = EvUnlock ks a auth r"
    using tryMatches_events [of env "h @ ?t0" ks "Matches err" auth] unfolding tm by simp
  have pm: "\<forall>e \<in> set (printMatches xs). \<exists>s. e = EvPrintln s" for xs
    by (auto simp: printMatches_def)
  show ?thesis
    unfolding ambiguousAddrRecovery_def Let_def tm
    using t1 pm by (cases m) auto
qed


lemma unlockTrials_events:
  assumes pl: "\<And>s. P (EvPrintln s)" and pf: "\<And>f a. P (EvPrintf f a)"
    and lg: "\<And>l m kv. P (EvLog l m kv)"
    and pp: "\<And>p r. passwords = [] \<Longrightarrow> P (EvPromptPassword p r)"
    and ul: "\<And>a pw r. passwords \<noteq> [] \<longrightarrow> pw = passwords ! min (nat i) (length passwords - 1)
                \<Longrightarrow> P (EvUnlock ks a pw r)"
  shows "\<forall>e \<in> set (snd (unlockTrials env h ks address account i passwords trials err)). P e"
proof (induction "3 - trials" arbitrary: trials h err)
  case 0
  then show ?case
    by (subst unlockTrials_unfold) simp
next
  case (Suc n)
  then have lt: "trials < 3" by simp
  let ?prompt = "''Unlocking account '' @ address @ '' | Attempt '' @ itoa (trials + 1) @ ''/'' @ itoa 3"
  obtain g t0 where g: "getPassPhrase env h ?prompt False i passwords = (g, t0)"
    by (cases "getPassPhrase env h ?prompt False i passwords")
  have t0: "\<forall>e \<in> set t0. P e"
    using getPassPhrase_events [of passwords env h ?prompt i] pl pp unfolding g
    by (cases "passwords = []") auto
  show ?case
  proof (cases g)
    case (Inl x)
    have step: "unlockTrials env h ks address account i passwords trials err = (Inl x, t0)"
      apply (subst unlockTrials_unfold)
      apply (simp only: lt if_True g Inl prod.case sum.case)
      done
    show ?thesis
      unfolding step using t0 by simp
  next
    case (Inr pw)
    have pw: "passwords \<noteq> [] \<longrightarrow> pw = passwords ! min (nat i) (length passwords - 1)"
      using getPassPhrase_events [of passwords env h ?prompt i] unfolding g Inr by simp
    have U: "P (EvUnlock ks a pw r)" for a r
      by (rule ul) (rule pw)
    show ?thesis
    proof (cases "Unlock env (h @ t0) ks account pw")
      case None
      have step: "unlockTrials env h ks address account i passwords trials err
          = (Inr (account, pw), t0 @ [EvUnlock ks account pw None,
               EvLog Info ''Unlocked account'' [(''address'', Address account)]])"
        apply (subst unlockTrials_unfold)
        apply (simp only: lt if_True g Inr prod.case sum.case None option.case)
        done
      show ?thesis
        unfolding step using t0 U lg by auto
    next
      case (Some e)
      show ?thesis
      proof (cases e)
        case (Ambiguous ae)
        let ?t2 = "t0 @ [EvUnlock ks account pw (Some (Ambiguous ae)),
                     EvLog Info ''Unlocked account'' [(''address'', Address account)]]"
        obtain ra t3 where rc: "ambiguousAddrRecovery env (h @ ?t2) ks ae pw = (ra, t3)"
          by (cases "ambiguousAddrRecovery env (h @ ?t2) ks ae pw")
        have rv: "\<forall>e \<in> set t3. P e"
          using ambiguousAddrRecovery_events [of env "h @ ?t2" ks ae pw] pl pf U
          unfolding rc by auto
        have step: "snd (unlockTrials env h ks address account i passwords trials err) = ?t2 @ t3"
          apply (subst unlockTrials_unfold)
          apply (simp only: lt if_True g Inr prod.case sum.case Some Ambiguous option.case
              unlock_error.case rc)
          apply (cases ra)
           apply simp_all
          done
        show ?thesis
          unfolding step using t0 U lg rv by auto
      next
        case ErrDecrypt
        have n: "n = 3 - (trials + 1)"
          using Suc.hyps(2) by simp
        let ?h1 = "h @ t0 @ [EvUnlock ks account pw (Some ErrDecrypt)]"
        obtain res t2 where rec: "unlockTrials env ?h1 ks address account i passwords
            (trials + 1) (Some ErrDecrypt) = (res, t2)"
          by (cases "unlockTrials env ?h1 ks address account i passwords (trials + 1) (Some ErrDecrypt)")
        have ih: "\<forall>e \<in> set t2. P e"
          using Suc.hyps(1) [OF n, of ?h1 "Some ErrDecrypt"] unfolding rec by simp
        have step: "unlockTrials env h ks address account i passwords trials err
            = (res, t0 @ [EvUnlock ks account pw (Some ErrDecrypt)] @ t2)"
          apply (subst unlockTrials_unfold)
          apply (simp only: lt if_True g Inr prod.case sum.case Some ErrDecrypt option.case
              unlock_error.case rec)
          done
        show ?thesis
          unfolding step using t0 U ih by auto
      next
        case (OtherError m)
        have step: "unlockTrials env h ks address account i passwords trials err
            = (Inl (failedToUnlock address (Some (OtherError m))),
               t0 @ [EvUnlock ks account pw (Some (OtherError m))])"
          apply (subst unlockTrials_unfold)
          apply (simp only: lt if_True g Inr prod.case sum.case Some OtherError option.case
              unlock_error.case)
          done
        show ?thesis
          unfolding step using t0 U by auto
      qed
    qed
  qed
qed

lemma unlockAccount_events:
  assumes pl: "\<And>s. P (EvPrintln s)" and pf: "\<And>f a. P (EvPrintf f a)"
    and lg: "\<And>l m kv. P (EvLog l m kv)"
    and pp: "\<And>p r. passwords = [] \<Longrightarrow> P (EvPromptPassword p r)"
    and ul: "\<And>a pw r. passwords \<noteq> [] \<longrightarrow> pw = passwords ! min (nat i) (length passwords - 1)
                \<Longrightarrow> P (EvUnlock ks a pw r)"
  shows "\<exists>r t. snd (unlockAccount env h ks address i passwords) = EvMakeAddress ks address r # t
            \<and> (\<forall>e \<in> set t. P e)"
proof (cases "MakeAddress env h ks address")
  case (Inl err)
  then show ?thesis by (simp add: unlockAccount_def)
next
  case (Inr account)
  show ?thesis
    using unlockTrials_events [of P passwords i ks env "h @ [EvMakeAddress ks address (Inr account)]"
        address account 0 None, OF pl pf lg pp ul]
    by (simp add: unlockAccount_def Inr Let_def split: prod.splits)
qed

subsection \<open>The unlock loop of \<open>startNode\<close>\<close>

lemma unlockAccount_resolutions:
  "resolutions (snd (unlockAccount env h ks address i passwords)) = [address]"
proof -
  let ?P = "\<lambda>e. resolutionOf e = None"
  have "\<exists>r t. snd (unlockAccount env h ks address i passwords) = EvMakeAddress ks address r # t
            \<and> (\<forall>e \<in> set t. ?P e)"
    by (rule unlockAccount_events) (simp_all add: resolutionOf_def)
  then obtain r t where t: "snd (unlockAccount env h ks address i passwords) = EvMakeAddress ks address r # t"
    and n: "\<forall>e \<in> set t. resolutionOf e = None"
    by blast
  have "List.map_filter resolutionOf t = []"
    using n by (rule map_filter_None)
  then show ?thesis
    unfolding t resolutions_def by (simp add: resolutionOf_def)
qed









text \<open>
  The trace of the loop is the concatenation of one segment per entry reached: empty for
  a blank entry, and otherwise the trace of \<open>unlockAccount\<close> on the trimmed entry with the
  position of the entry in the list as its index.
\<close>

lemma unlockLoop_segments:
  "\<exists>ts. snd (unlockLoop env h ks i entries passwords) = concat ts
      \<and> length ts \<le> length entries
      \<and> (fst (unlockLoop env h ks i entries passwords) = Inr () \<longrightarrow> length ts = length entries)
      \<and> (\<forall>j < length ts.
            ts ! j = (if TrimSpace (entries ! j) = [] then []
                      else snd (unlockAccount env (h @ concat (take j ts)) ks
                                  (TrimSpace (entries ! j)) (int (i + j)) passwords)))"
proof (induction entries arbitrary: h i)
  case Nil
  show ?case by (rule exI [of _ "[]"]) simp
next
  case (Cons e rest)
  show ?case
  proof (cases "TrimSpace e = []")
    case True
    obtain ts where ts: "snd (unlockLoop env h ks (i + 1) rest passwords) = concat ts"
      "length ts \<le> length rest"
      "fst (unlockLoop env h ks (i + 1) rest passwords) = Inr () \<longrightarrow> length ts = length rest"
      "\<forall>j < length ts.
            ts ! j = (if TrimSpace (rest ! j) = [] then []
                      else snd (unlockAccount env (h @ concat (take j ts)) ks
                                  (TrimSpace (rest ! j)) (int (i + 1 + j)) passwords))"
      using Cons.IH [of h "i + 1"] by blast
    have nth: "\<forall>j < length ([] # ts).
            ([] # ts) ! j = (if TrimSpace ((e # rest) ! j) = [] then []
                      else snd (unlockAccount env (h @ concat (take j ([] # ts))) ks
                                  (TrimSpace ((e # rest) ! j)) (int (i + j)) passwords))"
    proof (intro allI impI)
      fix j assume "j < length ([] # ts)"
      then show "([] # ts) ! j = (if TrimSpace ((e # rest) ! j) = [] then []
                      else snd (unlockAccount env (h @ concat (take j ([] # ts))) ks
                                  (TrimSpace ((e # rest) ! j)) (int (i + j)) passwords))"
        using ts(4) True by (cases j) simp_all
    qed
    show ?thesis
      by (rule exI [of _ "[] # ts"]) (use ts(1,2,3) True nth in simp)
  next
    case False
    obtain r t where ua: "unlockAccount env h ks (TrimSpace e) (int i) passwords = (r, t)"
      by (cases "unlockAccount env h ks (TrimSpace e) (int i) passwords")
    show ?thesis
    proof (cases r)
      case (Inl x)
      show ?thesis
        by (rule exI [of _ "[t]"]) (use False ua Inl in simp)
    next
      case (Inr v)
      obtain res t' where ul: "unlockLoop env (h @ t) ks (i + 1) rest passwords = (res, t')"
        by (cases "unlockLoop env (h @ t) ks (i + 1) rest passwords")
      obtain ts where ts: "t' = concat ts"
        "length ts \<le> length rest"
        "res = Inr () \<longrightarrow> length ts = length rest"
        "\<forall>j < length ts.
            ts ! j = (if TrimSpace (rest ! j) = [] then []
                      else snd (unlockAccount env ((h @ t) @ concat (take j ts)) ks
                                  (TrimSpace (rest ! j)) (int (i + 1 + j)) passwords))"
        using Cons.IH [of "h @ t" "i + 1"] unfolding ul by auto
      have step: "unlockLoop env h ks i (e # rest) passwords = (res, t @ t')"
        using False ua Inr ul by simp
      have nth: "\<forall>j < length (t # ts).
            (t # ts) ! j = (if TrimSpace ((e # rest) ! j) = [] then []
                      else snd (unlockAccount env (h @ concat (take j (t # ts))) ks
                                  (TrimSpace ((e # rest) ! j)) (int (i + j)) passwords))"
      proof (intro allI impI)
        fix j assume "j < length (t # ts)"
        then show "(t # ts) ! j = (if TrimSpace ((e # rest) ! j) = [] then []
                      else snd (unlockAccount env (h @ concat (take j (t # ts))) ks
                                  (TrimSpace ((e # rest) ! j)) (int (i + j)) passwords))"
          using ts(4) False ua by (cases j) simp_all
      qed
      show ?thesis
        unfolding step
        by (rule exI [of _ "t # ts"]) (use ts(1,2,3) nth in simp)
    qed
  qed
qed


text \<open>
  C9. With a non-empty password list the unlock loop never prompts, and within the
  segment of the entry at position \<open>j\<close> of the comma-split list (blank entries have a
  position too) every call of \<open>Unlock\<close>, whether one of the up to three attempts or
  one made during ambiguous-match recovery, carries the same password
  \<open>passwords ! min j (length passwords - 1)\<close>.
\<close>

theorem unlockLoop_password_by_position:
  assumes "passwords \<noteq> []"
  shows "\<exists>ts. snd (unlockLoop env h ks 0 entries passwords) = concat ts
      \<and> length ts \<le> length entries
      \<and> (fst (unlockLoop env h ks 0 entries passwords) = Inr () \<longrightarrow> length ts = length entries)
      \<and> (\<forall>j < length ts.
            prompts (ts ! j) = []
            \<and> resolutions (ts ! j)
                = (if TrimSpace (entries ! j) = [] then [] else [TrimSpace (entries ! j)])
            \<and> (\<forall>c \<in> set (unlockCalls (ts ! j)).
                  snd c = passwords ! min j (length passwords - 1)))"
proof -
  obtain ts where ts: "snd (unlockLoop env h ks 0 entries passwords) = concat ts"
      "length ts \<le> length entries"
      "fst (unlockLoop env h ks 0 entries passwords) = Inr () \<longrightarrow> length ts = length entries"
      "\<forall>j < length ts.
            ts ! j = (if TrimSpace (entries ! j) = [] then []
                      else snd (unlockAccount env (h @ concat (take j ts)) ks
                                  (TrimSpace (entries ! j)) (int (0 + j)) passwords))"
    using unlockLoop_segments [of env h ks 0 entries passwords] by blast
  have seg: "prompts (ts ! j) = []
            \<and> resolutions (ts ! j)
                = (if TrimSpace (entries ! j) = [] then [] else [TrimSpace (entries ! j)])
            \<and> (\<forall>c \<in> set (unlockCalls (ts ! j)).
                  snd c = passwords ! min j (length passwords - 1))" if j: "j < length ts" for j
  proof (cases "TrimSpace (entries ! j) = []")
    case True
    with ts(4) j have "ts ! j = []" by simp
    then show ?thesis
      using True by (simp add: prompts_def resolutions_def unlockCalls_def)
  next
    case False
    let ?h = "h @ concat (take j ts)"
    let ?a = "TrimSpace (entries ! j)"
    let ?pw = "passwords ! min (nat (int j)) (length passwords - 1)"
    let ?P = "\<lambda>e. promptOf e = None \<and> (\<forall>c. unlockCall e = Some c \<longrightarrow> snd c = ?pw)"
    have tj: "ts ! j = snd (unlockAccount env ?h ks ?a (int j) passwords)"
      using ts(4) j False by simp
    have "\<exists>r t. snd (unlockAccount env ?h ks ?a (int j) passwords) = EvMakeAddress ks ?a r # t
            \<and> (\<forall>e \<in> set t. ?P e)"
      by (rule unlockAccount_events) (use assms in \<open>simp_all add: promptOf_def unlockCall_def\<close>)
    then obtain r t where t: "ts ! j = EvMakeAddress ks ?a r # t" and P: "\<forall>e \<in> set t. ?P e"
      unfolding tj by blast
    have Pall: "\<forall>e \<in> set (ts ! j). ?P e"
      unfolding t using P by (simp add: promptOf_def unlockCall_def)
    have 1: "prompts (ts ! j) = []"
      unfolding prompts_def using Pall by (intro map_filter_None) simp
    have 2: "resolutions (ts ! j) = [?a]"
      unfolding tj by (rule unlockAccount_resolutions)
    have 3: "\<forall>c \<in> set (unlockCalls (ts ! j)). snd c = passwords ! min j (length passwords - 1)"
    proof
      fix c assume "c \<in> set (unlockCalls (ts ! j))"
      then obtain e where "e \<in> set (ts ! j)" "unlockCall e = Some c"
        unfolding unlockCalls_def by (blast dest: in_map_filterD)
      with Pall show "snd c = passwords ! min j (length passwords - 1)" by (cases c) auto
    qed
    from 1 2 3 False show ?thesis by simp
  qed
  show ?thesis
    by (rule exI [of _ ts]) (use ts(1,2,3) seg in blast)
qed

theorem unlockLoop_password_by_position_witness:
  "(\<exists>ts. snd (unlockLoop (envRetry 1 None) [] (KeyStore 0) 0 [''a'', '' '', ''b'']
                [''p1'', ''p2'', ''p3'']) = concat ts
      \<and> length ts = 3
      \<and> prompts (ts ! 0) = [] \<and> prompts (ts ! 1) = [] \<and> prompts (ts ! 2) = []
      \<and> resolutions (ts ! 0) = [''a''] \<and> resolutions (ts ! 1) = [] \<and> resolutions (ts ! 2) = [''b''])
   \<and> fst (unlockLoop (envRetry 1 None) [] (KeyStore 0) 0 [''a'', '' '', ''b'']
                [''p1'', ''p2'', ''p3'']) = Inr ()
   \<and> map snd (unlockCalls (snd (unlockLoop (envRetry 1 None) [] (KeyStore 0) 0 [''a'', '' '', ''b'']
                [''p1'', ''p2'', ''p3''])))
      = [''p1'', ''p1'', ''p3'']"
proof -
  have ne: "[''p1'', ''p2'', ''p3''] \<noteq> ([]::string list)" by simp
  have ok: "fst (unlockLoop (envRetry 1 None) [] (KeyStore 0) 0 [''a'', '' '', ''b'']
                [''p1'', ''p2'', ''p3'']) = Inr ()"
    by code_simp
  have calls: "map snd (unlockCalls (snd (unlockLoop (envRetry 1 None) [] (KeyStore 0) 0 [''a'', '' '', ''b'']
                [''p1'', ''p2'', ''p3''])))
      = [''p1'', ''p1'', ''p3'']"
    by code_simp
  have tr: "TrimSpace ''a'' = ''a''" "TrimSpace '' '' = []" "TrimSpace ''b'' = ''b''"
    by code_simp+
  obtain ts where ts: "snd (unlockLoop (envRetry 1 None) [] (KeyStore 0) 0 [''a'', '' '', ''b'']
                [''p1'', ''p2'', ''p3'']) = concat ts"
      "length ts \<le> length [''a'', '' '', ''b'']"
      "fst (unlockLoop (envRetry 1 None) [] (KeyStore 0) 0 [''a'', '' '', ''b'']
                [''p1'', ''p2'', ''p3'']) = Inr () \<longrightarrow> length ts = length [''a'', '' '', ''b'']"
      "\<forall>j < length ts.
            prompts (ts ! j) = []
            \<and> resolutions (ts ! j)
                = (if TrimSpace ([''a'', '' '', ''b''] ! j) = [] then [] else [TrimSpace ([''a'', '' '', ''b''] ! j)])
            \<and> (\<forall>c \<in> set (unlockCalls (ts ! j)).
                  snd c = [''p1'', ''p2'', ''p3''] ! min j (length [''p1'', ''p2'', ''p3''] - 1))"
    using unlockLoop_password_by_position [OF ne, of "envRetry 1 None" "[]" "KeyStore 0" "[''a'', '' '', ''b'']"]
    by blast
  from ts(3) ok have len: "length ts = 3" by simp
  then have "prompts (ts ! 0) = [] \<and> prompts (ts ! 1) = [] \<and> prompts (ts ! 2) = []
      \<and> resolutions (ts ! 0) = [''a''] \<and> resolutions (ts ! 1) = [] \<and> resolutions (ts ! 2) = [''b'']"
    using ts(4) [rule_format, of 0] ts(4) [rule_format, of 1] ts(4) [rule_format, of 2]
    by (simp add: tr)
  with ts(1) len ok calls show ?thesis by blast
qed

subsection \<open>The wallet watcher\<close>

lemmas watch_defs = storeEffects_def storeEffect_def opened_def openedOf_def failedOpens_def
  failedOpenOf_def derivations_def derivationOf_def warnings_def warningOf_def

lemma openWallets_effects:
  "storeEffects (openWallets env h sr ws) = map (\<lambda>w. (True, w)) ws
   \<and> derivations (openWallets env h sr ws) = map (\<lambda>w. (w, sr)) (opened (openWallets env h sr ws))
   \<and> length (warnings (openWallets env h sr ws)) = length (failedOpens (openWallets env h sr ws))"
proof (induction ws arbitrary: h)
  case Nil
  then show ?case by (simp add: watch_defs)
next
  case (Cons w ws)
  let ?t = "EvOpen w [] (WalletOpen env h w []) #
              (case WalletOpen env h w [] of
                 Some err \<Rightarrow> [EvLog Warn ''Failed to open wallet''
                                [(''url'', url_String (wallet_URL w)), (''err'', err)]]
               | None \<Rightarrow> [EvSelfDerive w sr])"
  have ih: "storeEffects (openWallets env (h @ ?t) sr ws) = map (\<lambda>w. (True, w)) ws
   \<and> derivations (openWallets env (h @ ?t) sr ws) = map (\<lambda>w. (w, sr)) (opened (openWallets env (h @ ?t) sr ws))
   \<and> length (warnings (openWallets env (h @ ?t) sr ws)) = length (failedOpens (openWallets env (h @ ?t) sr ws))"
    by (rule Cons.IH)
  show ?case
    using ih
    by (cases "WalletOpen env h w []")
       (simp_all add: watch_defs Let_def map_filter_append)
qed

lemma watchEvents_effects:
  "storeEffects (watchEvents env h sr evs) = map (\<lambda>e. (Arrive e, Wallet e)) evs
   \<and> derivations (watchEvents env h sr evs) = map (\<lambda>w. (w, sr)) (opened (watchEvents env h sr evs))
   \<and> length (warnings (watchEvents env h sr evs)) = length (failedOpens (watchEvents env h sr evs))"
proof (induction evs arbitrary: h)
  case Nil
  then show ?case by (simp add: watch_defs)
next
  case (Cons ev evs)
  show ?case
  proof (cases "Arrive ev")
    case False
    let ?t = "[EvLog Info ''Old wallet dropped'' [(''url'', url_String (wallet_URL (Wallet ev)))],
               EvClose (Wallet ev)]"
    show ?thesis
      using Cons.IH [of "h @ ?t"] False
      by (simp add: watch_defs Let_def map_filter_append)
  next
    case True
    show ?thesis
    proof (cases "WalletOpen env h (Wallet ev) []")
      case None
      let ?st = "WalletStatus env (h @ [EvOpen (Wallet ev) [] None]) (Wallet ev)"
      let ?t = "[EvOpen (Wallet ev) [] None, EvStatus (Wallet ev) ?st,
                 EvLog Info ''New wallet appeared''
                   [(''url'', url_String (wallet_URL (Wallet ev))), (''status'', ?st)],
                 EvSelfDerive (Wallet ev) sr]"
      show ?thesis
        using Cons.IH [of "h @ ?t"] True None
        by (simp add: watch_defs Let_def map_filter_append)
    next
      case (Some err)
      let ?t = "[EvOpen (Wallet ev) [] (Some err),
                 EvLog Warn ''New wallet appeared, failed to open''
                   [(''url'', url_String (wallet_URL (Wallet ev))), (''err'', err)]]"
      show ?thesis
        using Cons.IH [of "h @ ?t"] True Some
        by (simp add: watch_defs Let_def map_filter_append)
    qed
  qed
qed

text \<open>
  C8. Once its client is attached, the watcher never ends the process. It opens every
  wallet already attached and then handles the events of the channel one at a time in
  the order the channel delivers them: the calls of \<open>Open\<close> and \<open>Close\<close> it makes are, one
  for one and in order, an \<open>Open\<close> per wallet and then an \<open>Open\<close> per arrival and a
  \<open>Close\<close> per departure. A wallet that fails to open is logged with a warning (one
  warning per failure) and skipped: self-derivation is started for exactly the wallets
  that opened, and the loop goes on with the next one.
\<close>

theorem walletWatcher_in_order:
  assumes "Attach env h stack = Inr c"
  shows "fst (walletWatcher env h stack events) = Inr ()
   \<and> storeEffects (snd (walletWatcher env h stack events))
       = map (\<lambda>w. (True, w)) (Wallets env (h @ [EvAttach stack (Inr c)]) stack)
         @ map (\<lambda>e. (Arrive e, Wallet e)) events
   \<and> derivations (snd (walletWatcher env h stack events))
       = map (\<lambda>w. (w, NewClient c)) (opened (snd (walletWatcher env h stack events)))
   \<and> length (warnings (snd (walletWatcher env h stack events)))
       = length (failedOpens (snd (walletWatcher env h stack events)))"
proof -
  let ?t0 = "[EvAttach stack (Inr c)]"
  let ?ws = "Wallets env (h @ ?t0) stack"
  let ?t1 = "?t0 @ [EvWallets stack ?ws]"
  let ?o = "openWallets env (h @ ?t1) (NewClient c) ?ws"
  let ?w = "watchEvents env (h @ ?t1 @ ?o) (NewClient c) events"
  have run: "walletWatcher env h stack events = (Inr (), ?t1 @ ?o @ ?w)"
    by (simp add: walletWatcher_def assms Let_def)
  note o = openWallets_effects [of env "h @ ?t1" "NewClient c" ?ws]
  note w = watchEvents_effects [of env "h @ ?t1 @ ?o" "NewClient c" events]
  have eff: "storeEffects (?t1 @ ?o @ ?w) = storeEffects ?o @ storeEffects ?w"
    and der: "derivations (?t1 @ ?o @ ?w) = derivations ?o @ derivations ?w"
    and opn: "opened (?t1 @ ?o @ ?w) = opened ?o @ opened ?w"
    and wrn: "warnings (?t1 @ ?o @ ?w) = warnings ?o @ warnings ?w"
    and fld: "failedOpens (?t1 @ ?o @ ?w) = failedOpens ?o @ failedOpens ?w"
    by (simp_all add: watch_defs map_filter_append)
  show ?thesis
    unfolding run fst_conv snd_conv eff der opn wrn fld
    using o w by simp
qed

theorem walletWatcher_in_order_witness:
  "fst (walletWatcher envWallets [] (EthNode 0)
          [\<lparr>Wallet = ledger 2, Arrive = True\<rparr>, \<lparr>Wallet = ledger 3, Arrive = True\<rparr>,
           \<lparr>Wallet = ledger 1, Arrive = False\<rparr>]) = Inr ()
   \<and> storeEffects (snd (walletWatcher envWallets [] (EthNode 0)
          [\<lparr>Wallet = ledger 2, Arrive = True\<rparr>, \<lparr>Wallet = ledger 3, Arrive = True\<rparr>,
           \<lparr>Wallet = ledger 1, Arrive = False\<rparr>]))
       = [(True, ledger 1), (True, ledger 2), (True, ledger 2), (True, ledger 3), (False, ledger 1)]
   \<and> failedOpens (snd (walletWatcher envWallets [] (EthNode 0)
          [\<lparr>Wallet = ledger 2, Arrive = True\<rparr>, \<lparr>Wallet = ledger 3, Arrive = True\<rparr>,
           \<lparr>Wallet = ledger 1, Arrive = False\<rparr>]))
       = [ledger 2, ledger 2]"
proof -
  have a: "Attach envWallets [] (EthNode 0) = Inr (Client 0)"
    by (simp add: envWallets_def env0_def)
  have ws: "Wallets envWallets h' (EthNode 0) = [ledger 1, ledger 2]" for h'
    by (simp add: envWallets_def env0_def)
  have f: "failedOpens (snd (walletWatcher envWallets [] (EthNode 0)
          [\<lparr>Wallet = ledger 2, Arrive = True\<rparr>, \<lparr>Wallet = ledger 3, Arrive = True\<rparr>,
           \<lparr>Wallet = ledger 1, Arrive = False\<rparr>]))
       = [ledger 2, ledger 2]"
    by code_simp
  show ?thesis
    using walletWatcher_in_order [OF a, of
          "[\<lparr>Wallet = ledger 2, Arrive = True\<rparr>, \<lparr>Wallet = ledger 3, Arrive = True\<rparr>,
           \<lparr>Wallet = ledger 1, Arrive = False\<rparr>]"] f
    by (simp add: ws)
qed

subsection \<open>The runs of \<open>startNode\<close>\<close>

text \<open>
  \<open>startNode\<close> ends the process when the node fails to start, or later while unlocking;
  when it returns, its last two events are the subscription and the start of the
  watcher goroutine.
\<close>

lemma unlockLoop_events:
  "\<forall>e \<in> set (snd (unlockLoop env h ks i entries passwords)). unlockEvent e"
proof (induction entries arbitrary: h i)
  case Nil
  then show ?case by simp
next
  case (Cons entry rest)
  show ?case
  proof (cases "TrimSpace entry = []")
    case True
    then show ?thesis
      using Cons.IH [of h "i + 1"] by simp
  next
    case False
    obtain r t where ua: "unlockAccount env h ks (TrimSpace entry) (int i) passwords = (r, t)"
      by (cases "unlockAccount env h ks (TrimSpace entry) (int i) passwords")
    have "\<exists>r' t'. snd (unlockAccount env h ks (TrimSpace entry) (int i) passwords)
              = EvMakeAddress ks (TrimSpace entry) r' # t' \<and> (\<forall>e \<in> set t'. unlockEvent e)"
      by (rule unlockAccount_events) (simp_all add: unlockEvent_def)
    then have t: "\<forall>e \<in> set t. unlockEvent e"
      unfolding ua by (auto simp: unlockEvent_def)
    show ?thesis
    proof (cases r)
      case (Inl x)
      then show ?thesis
        using False ua t by simp
    next
      case (Inr v)
      obtain res t' where ul: "unlockLoop env (h @ t) ks (i + 1) rest passwords = (res, t')"
        by (cases "unlockLoop env (h @ t) ks (i + 1) rest passwords")
      have "\<forall>e \<in> set t'. unlockEvent e"
        using Cons.IH [of "h @ t" "i + 1"] unfolding ul by simp
      then show ?thesis
        using False ua Inr ul t by auto
    qed
  qed
qed

lemma startNode_cases:
  obtains (failed) x where
      "startNode env context h stack = (Inl x, [EvStartNode stack (Some x)])"
  | (halted) x bs t where
      "startNode env context h stack = (Inl x, EvStartNode stack None # EvBackends stack bs # t)"
      "\<forall>e \<in> set t. unlockEvent e"
  | (spawned) bs t where
      "startNode env context h stack
        = (Inr (), EvStartNode stack None # EvBackends stack bs # t @ [EvSubscribe stack, EvGo])"
      "\<forall>e \<in> set t. unlockEvent e"
proof (cases "StartNode env h stack")
  case (Some x)
  then have "startNode env context h stack = (Inl x, [EvStartNode stack (Some x)])"
    by (simp add: startNode_def)
  then show ?thesis by (rule failed)
next
  case None
  let ?t0 = "[EvStartNode stack None]"
  show ?thesis
  proof (cases "Backends env (h @ ?t0) stack")
    case Nil
    have "startNode env context h stack
        = (Inl (Panic ''index out of range''), EvStartNode stack None # EvBackends stack [] # [])"
      using None Nil by (simp add: startNode_def)
    then show ?thesis by (rule halted) simp
  next
    case (Cons ks more)
    let ?t1 = "?t0 @ [EvBackends stack (ks # more)]"
    show ?thesis
    proof (cases "MakePasswordList env (h @ ?t1) context")
      case (Inl x)
      have "startNode env context h stack
          = (Inl x, EvStartNode stack None # EvBackends stack (ks # more) # [EvMakePasswordList (Inl x)])"
        using None Cons Inl by (simp add: startNode_def)
      then show ?thesis by (rule halted) (simp add: unlockEvent_def)
    next
      case pws: (Inr passwords)
      let ?t2 = "?t1 @ [EvMakePasswordList (Inr passwords)]"
      obtain r t3 where ul: "unlockLoop env (h @ ?t2) ks 0 (Split (UnlockedAccountFlag context)) passwords = (r, t3)"
        by (cases "unlockLoop env (h @ ?t2) ks 0 (Split (UnlockedAccountFlag context)) passwords")
      have t3: "\<forall>e \<in> set t3. unlockEvent e"
        using unlockLoop_events [of env "h @ ?t2" ks 0 "Split (UnlockedAccountFlag context)" passwords]
        unfolding ul by simp
      have all: "\<forall>e \<in> set (EvMakePasswordList (Inr passwords) # t3). unlockEvent e"
        using t3 by (simp add: unlockEvent_def)
      show ?thesis
      proof (cases r)
        case (Inl x)
        have "startNode env context h stack
            = (Inl x, EvStartNode stack None # EvBackends stack (ks # more)
                 # (EvMakePasswordList (Inr passwords) # t3))"
          using None Cons pws ul Inl by (simp add: startNode_def)
        then show ?thesis using all by (rule halted)
      next
        case (Inr u)
        have "startNode env context h stack
            = (Inr (), EvStartNode stack None # EvBackends stack (ks # more)
                 # (EvMakePasswordList (Inr passwords) # t3) @ [EvSubscribe stack, EvGo])"
          using None Cons pws ul Inr
          by (simp add: startNode_def)
        then show ?thesis using all by (rule spawned)
      qed
    qed
  qed
qed

subsection \<open>The runs of \<open>startServices\<close>\<close>

text \<open>
  \<open>startTendermint\<close> has four outcomes and \<open>startServices\<close> ten: one per call that can
  fail, and the run in which none does. Each comes with its trace.
\<close>

lemma startTendermint_cases:
  obtains (config) e where
      "startTendermint env h app = ((None, Some e), [EvParseConfig (Inl e)])"
  | (construct) cfg papp e where
      "startTendermint env h app = ((None, Some e),
         [EvParseConfig (Inr cfg), EvLoadOrGenPrivValidatorFS (PrivValidatorFile cfg),
          EvNewNode cfg papp (Inl e)])"
  | (start) cfg papp n e where
      "startTendermint env h app = ((None, Some e),
         [EvParseConfig (Inr cfg), EvLoadOrGenPrivValidatorFS (PrivValidatorFile cfg),
          EvNewNode cfg papp (Inr n), EvNodeStart n (Some e)])"
  | (running) cfg papp n where
      "startTendermint env h app = ((Some n, None),
         [EvParseConfig (Inr cfg), EvLoadOrGenPrivValidatorFS (PrivValidatorFile cfg),
          EvNewNode cfg papp (Inr n), EvNodeStart n None])"
proof (cases "ParseConfig env h")
  case (Inl e)
  then have "startTendermint env h app = ((None, Some e), [EvParseConfig (Inl e)])"
    by (simp add: startTendermint_def Let_def)
  then show ?thesis by (rule config)
next
  case cfg: (Inr cfg)
  let ?papp = "case app of Some a \<Rightarrow> NewLocalClientCreator a
               | None \<Rightarrow> DefaultClientCreator (ProxyApp cfg) (ABCI cfg) (DBDir cfg)"
  let ?t1 = "[EvParseConfig (Inr cfg), EvLoadOrGenPrivValidatorFS (PrivValidatorFile cfg)]"
  show ?thesis
  proof (cases "NewNode env (h @ ?t1) cfg ?papp")
    case (Inl e)
    have "startTendermint env h app = ((None, Some e),
         [EvParseConfig (Inr cfg), EvLoadOrGenPrivValidatorFS (PrivValidatorFile cfg),
          EvNewNode cfg ?papp (Inl e)])"
      using cfg Inl by (simp add: startTendermint_def Let_def)
    then show ?thesis by (rule construct)
  next
    case n: (Inr n)
    let ?t2 = "?t1 @ [EvNewNode cfg ?papp (Inr n)]"
    show ?thesis
    proof (cases "NodeStart env (h @ ?t2) n")
      case None
      have "startTendermint env h app = ((Some n, None),
         [EvParseConfig (Inr cfg), EvLoadOrGenPrivValidatorFS (PrivValidatorFile cfg),
          EvNewNode cfg ?papp (Inr n), EvNodeStart n None])"
        using cfg n None by (simp add: startTendermint_def Let_def)
      then show ?thesis by (rule running)
    next
      case (Some e)
      have "startTendermint env h app = ((None, Some e),
         [EvParseConfig (Inr cfg), EvLoadOrGenPrivValidatorFS (PrivValidatorFile cfg),
          EvNewNode cfg ?papp (Inr n), EvNodeStart n (Some e)])"
        using cfg n Some by (simp add: startTendermint_def Let_def)
      then show ?thesis by (rule start)
    qed
  qed
qed

lemma startServices_cases:
  obtains (node) x where
      "MakeFullNode env h context = Inl x"
      "startServices env context h rootDir storeApp = (Inl x, [EvMakeFullNode (Inl x)])"
  | (unlock) emNode x t1 where
      "MakeFullNode env h context = Inr emNode"
      "startNode env context (h @ [EvMakeFullNode (Inr emNode)]) emNode = (Inl x, t1)"
      "startServices env context h rootDir storeApp = (Inl x, EvMakeFullNode (Inr emNode) # t1)"
  | (service) emNode t1 e where
      "MakeFullNode env h context = Inr emNode"
      "startNode env context (h @ [EvMakeFullNode (Inr emNode)]) emNode = (Inr (), t1)"
      "startServices env context h rootDir storeApp
        = (Inl (Fatalf ''ethereum backend service not running: %v'' [e]),
           EvMakeFullNode (Inr emNode) # t1 @ [EvService emNode (Inl e)])"
  | (attach) emNode t1 b e where
      "MakeFullNode env h context = Inr emNode"
      "startNode env context (h @ [EvMakeFullNode (Inr emNode)]) emNode = (Inr (), t1)"
      "startServices env context h rootDir storeApp
        = (Inl (Fatalf ''Failed to attach to the inproc geth: %v'' [e]),
           EvMakeFullNode (Inr emNode) # t1 @ [EvService emNode (Inr b),
             EvAttach emNode (Inl e)])"
  | (bridge) emNode t1 b c e where
      "MakeFullNode env h context = Inr emNode"
      "startNode env context (h @ [EvMakeFullNode (Inr emNode)]) emNode = (Inr (), t1)"
      "startServices env context h rootDir storeApp
        = (Inl (Exit 1),
           EvMakeFullNode (Inr emNode) # t1 @ [EvService emNode (Inr b),
             EvAttach emNode (Inr c),
             EvNewEthermintApplication b c (Inl e),
             EvPrintln [e]])"
  | (server) emNode t1 b c app e where
      "MakeFullNode env h context = Inr emNode"
      "startNode env context (h @ [EvMakeFullNode (Inr emNode)]) emNode = (Inr (), t1)"
      "startServices env context h rootDir storeApp
        = (Inl (Exit 1),
           EvMakeFullNode (Inr emNode) # t1 @ [EvService emNode (Inr b),
             EvAttach emNode (Inr c),
             EvNewEthermintApplication b c (Inr app),
             EvSetLogger ''ethermint'',
             EvNewServer (ABCIAddrFlag context) (ABCIProtocolFlag context) app (Inl e),
             EvPrintln [e]])"
  | (serverStart) emNode t1 b c app srv e where
      "MakeFullNode env h context = Inr emNode"
      "startNode env context (h @ [EvMakeFullNode (Inr emNode)]) emNode = (Inr (), t1)"
      "startServices env context h rootDir storeApp
        = (Inl (Exit 1),
           EvMakeFullNode (Inr emNode) # t1 @ [EvService emNode (Inr b),
             EvAttach emNode (Inr c),
             EvNewEthermintApplication b c (Inr app),
             EvSetLogger ''ethermint'',
             EvNewServer (ABCIAddrFlag context) (ABCIProtocolFlag context) app (Inr srv),
             EvSetLogger ''abci-server'',
             EvServerStart srv (Some e),
             EvPrintln [e]])"
  | (baseApp) emNode t1 b c app srv e where
      "MakeFullNode env h context = Inr emNode"
      "startNode env context (h @ [EvMakeFullNode (Inr emNode)]) emNode = (Inr (), t1)"
      "startServices env context h rootDir storeApp
        = (Inl (Exit 1),
           EvMakeFullNode (Inr emNode) # t1 @ [EvService emNode (Inr b),
             EvAttach emNode (Inr c),
             EvNewEthermintApplication b c (Inr app),
             EvSetLogger ''ethermint'',
             EvNewServer (ABCIAddrFlag context) (ABCIProtocolFlag context) app (Inr srv),
             EvSetLogger ''abci-server'',
             EvServerStart srv None,
             EvCreateBaseCoinApp rootDir storeApp (Inl e),
             EvPrintln [e]])"
  | (consensus) emNode t1 b c app srv bapp h9 n e t10 where
      "MakeFullNode env h context = Inr emNode"
      "startNode env context (h @ [EvMakeFullNode (Inr emNode)]) emNode = (Inr (), t1)"
      "startTendermint env h9 bapp = ((n, Some e), t10)"
      "startServices env context h rootDir storeApp
        = (Inl (Exit 1),
           EvMakeFullNode (Inr emNode) # t1 @ [EvService emNode (Inr b),
             EvAttach emNode (Inr c),
             EvNewEthermintApplication b c (Inr app),
             EvSetLogger ''ethermint'',
             EvNewServer (ABCIAddrFlag context) (ABCIProtocolFlag context) app (Inr srv),
             EvSetLogger ''abci-server'',
             EvServerStart srv None,
             EvCreateBaseCoinApp rootDir storeApp (Inr bapp)] @ t10 @ [EvPrintln [e]])"
  | (returns) emNode t1 b c app srv bapp h9 n t10 where
      "MakeFullNode env h context = Inr emNode"
      "startNode env context (h @ [EvMakeFullNode (Inr emNode)]) emNode = (Inr (), t1)"
      "startTendermint env h9 bapp = ((n, None), t10)"
      "startServices env context h rootDir storeApp
        = (Inr (Some \<lparr>backend = Some b, rpcClient = Some c, emt = Some srv, tmNode = n\<rparr>, None),
           EvMakeFullNode (Inr emNode) # t1 @ [EvService emNode (Inr b),
             EvAttach emNode (Inr c),
             EvNewEthermintApplication b c (Inr app),
             EvSetLogger ''ethermint'',
             EvNewServer (ABCIAddrFlag context) (ABCIProtocolFlag context) app (Inr srv),
             EvSetLogger ''abci-server'',
             EvServerStart srv None,
             EvCreateBaseCoinApp rootDir storeApp (Inr bapp)] @ t10)"
proof (cases "MakeFullNode env h context")
  case (Inl x)
  then have "startServices env context h rootDir storeApp = (Inl x, [EvMakeFullNode (Inl x)])"
    by (simp add: startServices_def Let_def)
  with Inl show ?thesis by (rule node)
next
  case emNode: (Inr emNode)
  let ?t0 = "[EvMakeFullNode (Inr emNode)]"
  obtain r1 t1 where sn: "startNode env context (h @ ?t0) emNode = (r1, t1)"
    by (cases "startNode env context (h @ ?t0) emNode")
  show ?thesis
  proof (cases r1)
    case (Inl x)
    have sn': "startNode env context (h @ [EvMakeFullNode (Inr emNode)]) emNode = (Inl x, t1)"
      using sn Inl by simp
    have eq: "startServices env context h rootDir storeApp = (Inl x, EvMakeFullNode (Inr emNode) # t1)"
      using emNode sn' by (simp add: startServices_def Let_def)
    from emNode sn' eq show ?thesis by (rule unlock)
  next
    case (Inr u)
    then have sn': "startNode env context (h @ [EvMakeFullNode (Inr emNode)]) emNode = (Inr (), t1)"
      using sn by simp
    let ?t2 = "\<lambda>r. ?t0 @ t1 @ [EvService emNode r]"
    show ?thesis
    proof (cases "Service env (h @ ?t0 @ t1) emNode")
      case (Inl e)
      have eq: "startServices env context h rootDir storeApp
              = (Inl (Fatalf ''ethereum backend service not running: %v'' [e]),
                 EvMakeFullNode (Inr emNode) # t1 @ [EvService emNode (Inl e)])"
        using emNode sn' Inl by (simp add: startServices_def Let_def)
      from emNode sn' eq show ?thesis by (rule service)
    next
      case b: (Inr b)
      let ?t3 = "\<lambda>r. ?t2 (Inr b) @ [EvAttach emNode r]"
      show ?thesis
      proof (cases "Attach env (h @ ?t2 (Inr b)) emNode")
        case (Inl e)
        have eq: "startServices env context h rootDir storeApp
                = (Inl (Fatalf ''Failed to attach to the inproc geth: %v'' [e]),
                   EvMakeFullNode (Inr emNode) # t1 @ [EvService emNode (Inr b),
                     EvAttach emNode (Inl e)])"
          using emNode sn' b Inl by (simp add: startServices_def Let_def)
        from emNode sn' eq show ?thesis by (rule attach)
      next
        case c: (Inr c)
        let ?t4 = "\<lambda>r. ?t3 (Inr c) @ [EvNewEthermintApplication b c r]"
        show ?thesis
        proof (cases "NewEthermintApplication env (h @ ?t3 (Inr c)) b c")
          case (Inl e)
          have eq: "startServices env context h rootDir storeApp
                  = (Inl (Exit 1),
                     EvMakeFullNode (Inr emNode) # t1 @ [EvService emNode (Inr b),
                       EvAttach emNode (Inr c),
                       EvNewEthermintApplication b c (Inl e),
                       EvPrintln [e]])"
            using emNode sn' b c Inl by (simp add: startServices_def Let_def)
          from emNode sn' eq show ?thesis by (rule bridge)
        next
          case app: (Inr app)
          let ?t5 = "?t4 (Inr app) @ [EvSetLogger ''ethermint'']"
          let ?t6 = "\<lambda>r. ?t5 @ [EvNewServer (ABCIAddrFlag context) (ABCIProtocolFlag context) app r]"
          show ?thesis
          proof (cases "NewServer env (h @ ?t5) (ABCIAddrFlag context) (ABCIProtocolFlag context) app")
            case (Inl e)
            have eq: "startServices env context h rootDir storeApp
                    = (Inl (Exit 1),
                       EvMakeFullNode (Inr emNode) # t1 @ [EvService emNode (Inr b),
                         EvAttach emNode (Inr c),
                         EvNewEthermintApplication b c (Inr app),
                         EvSetLogger ''ethermint'',
                         EvNewServer (ABCIAddrFlag context) (ABCIProtocolFlag context) app (Inl e),
                         EvPrintln [e]])"
              using emNode sn' b c app Inl by (simp add: startServices_def Let_def)
            from emNode sn' eq show ?thesis by (rule server)
          next
            case srv: (Inr srv)
            let ?t7 = "?t6 (Inr srv) @ [EvSetLogger ''abci-server'']"
            let ?t8 = "\<lambda>r. ?t7 @ [EvServerStart srv r]"
            show ?thesis
            proof (cases "ServerStart env (h @ ?t7) srv")
              case (Some e)
              have eq: "startServices env context h rootDir storeApp
                      = (Inl (Exit 1),
                         EvMakeFullNode (Inr emNode) # t1 @ [EvService emNode (Inr b),
                           EvAttach emNode (Inr c),
                           EvNewEthermintApplication b c (Inr app),
                           EvSetLogger ''ethermint'',
                           EvNewServer (ABCIAddrFlag context) (ABCIProtocolFlag context) app (Inr srv),
                           EvSetLogger ''abci-server'',
                           EvServerStart srv (Some e),
                           EvPrintln [e]])"
                using emNode sn' b c app srv Some by (simp add: startServices_def Let_def)
              from emNode sn' eq show ?thesis by (rule serverStart)
            next
              case started: None
              let ?t9 = "\<lambda>r. ?t8 None @ [EvCreateBaseCoinApp rootDir storeApp r]"
              show ?thesis
              proof (cases "createBaseCoinApp env (h @ ?t8 None) rootDir storeApp")
                case (Inl e)
                have eq: "startServices env context h rootDir storeApp
                        = (Inl (Exit 1),
                           EvMakeFullNode (Inr emNode) # t1 @ [EvService emNode (Inr b),
                             EvAttach emNode (Inr c),
                             EvNewEthermintApplication b c (Inr app),
                             EvSetLogger ''ethermint'',
                             EvNewServer (ABCIAddrFlag context) (ABCIProtocolFlag context) app (Inr srv),
                             EvSetLogger ''abci-server'',
                             EvServerStart srv None,
                             EvCreateBaseCoinApp rootDir storeApp (Inl e),
                             EvPrintln [e]])"
                  using emNode sn' b c app srv started Inl by (simp add: startServices_def Let_def)
                from emNode sn' eq show ?thesis by (rule baseApp)
              next
                case bapp: (Inr bapp)
                obtain n err t10 where st: "startTendermint env (h @ ?t9 (Inr bapp)) bapp = ((n, err), t10)"
                  by (cases "startTendermint env (h @ ?t9 (Inr bapp)) bapp") auto
                show ?thesis
                proof (cases err)
                  case None
                  have st': "startTendermint env (h @ ?t9 (Inr bapp)) bapp = ((n, None), t10)"
                    using st None by simp
                  have eq: "startServices env context h rootDir storeApp
                          = (Inr (Some \<lparr>backend = Some b, rpcClient = Some c, emt = Some srv, tmNode = n\<rparr>, None),
                             EvMakeFullNode (Inr emNode) # t1 @ [EvService emNode (Inr b),
                               EvAttach emNode (Inr c),
                               EvNewEthermintApplication b c (Inr app),
                               EvSetLogger ''ethermint'',
                               EvNewServer (ABCIAddrFlag context) (ABCIProtocolFlag context) app (Inr srv),
                               EvSetLogger ''abci-server'',
                               EvServerStart srv None,
                               EvCreateBaseCoinApp rootDir storeApp (Inr bapp)] @ t10)"
                    using emNode sn' b c app srv started bapp st' by (simp add: startServices_def Let_def)
                  from emNode sn' st' eq show ?thesis by (rule returns)
                next
                  case (Some e)
                  have st': "startTendermint env (h @ ?t9 (Inr bapp)) bapp = ((n, Some e), t10)"
                    using st Some by simp
                  have eq: "startServices env context h rootDir storeApp
                          = (Inl (Exit 1),
                             EvMakeFullNode (Inr emNode) # t1 @ [EvService emNode (Inr b),
                               EvAttach emNode (Inr c),
                               EvNewEthermintApplication b c (Inr app),
                               EvSetLogger ''ethermint'',
                               EvNewServer (ABCIAddrFlag context) (ABCIProtocolFlag context) app (Inr srv),
                               EvSetLogger ''abci-server'',
                               EvServerStart srv None,
                               EvCreateBaseCoinApp rootDir storeApp (Inr bapp)] @ t10 @ [EvPrintln [e]])"
                    using emNode sn' b c app srv started bapp st' by (simp add: startServices_def Let_def)
                  from emNode sn' st' eq show ?thesis by (rule consensus)
                qed
              qed
            qed
          qed
        qed
      qed
    qed
  qed
qed

subsection \<open>The handle returned\<close>

text \<open>
  C10. Whenever \<open>startServices\<close> returns, the error it returns is \<open>nil\<close> and the handle is
  not: its four references are all set, the backend to the value \<open>Service\<close> delivered,
  the client to the value \<open>Attach\<close> returned (the one the application was built with),
  the server to the value \<open>NewServer\<close> returned for that application and whose \<open>Start\<close>
  succeeded, and the consensus node to the value \<open>NewNode\<close> returned and whose \<open>Start\<close>
  succeeded.
\<close>

theorem startServices_handle:
  assumes "fst (startServices env context h rootDir storeApp) = Inr (sv, err)"
  shows "err = None
    \<and> (\<exists>b c srv n node app.
          sv = Some \<lparr>backend = Some b, rpcClient = Some c, emt = Some srv, tmNode = Some n\<rparr>
          \<and> EvService node (Inr b) \<in> set (snd (startServices env context h rootDir storeApp))
          \<and> EvAttach node (Inr c) \<in> set (snd (startServices env context h rootDir storeApp))
          \<and> EvNewEthermintApplication b c (Inr app)
              \<in> set (snd (startServices env context h rootDir storeApp))
          \<and> (\<exists>a p. EvNewServer a p app (Inr srv)
                \<in> set (snd (startServices env context h rootDir storeApp)))
          \<and> EvServerStart srv None \<in> set (snd (startServices env context h rootDir storeApp))
          \<and> (\<exists>cfg papp. EvNewNode cfg papp (Inr n)
                \<in> set (snd (startServices env context h rootDir storeApp)))
          \<and> EvNodeStart n None \<in> set (snd (startServices env context h rootDir storeApp)))"
proof (cases rule: startServices_cases [of env h "context" rootDir storeApp])
  case (returns emNode t1 b c app srv bapp h9 n t10)
  from returns(3) obtain cfg papp n' where n: "n = Some n'"
    and t10: "t10 = [EvParseConfig (Inr cfg), EvLoadOrGenPrivValidatorFS (PrivValidatorFile cfg),
          EvNewNode cfg papp (Inr n'), EvNodeStart n' None]"
    by (cases rule: startTendermint_cases [of env h9 bapp]) auto
  from assms have sv: "sv = Some \<lparr>backend = Some b, rpcClient = Some c, emt = Some srv, tmNode = Some n'\<rparr>"
    and err: "err = None"
    unfolding returns(4) n by simp_all
  show ?thesis
    unfolding returns(4) snd_conv t10
    using sv err by auto
qed (use assms in simp_all)

theorem startServices_handle_witness:
  "fst (startServices env0 ctx0 [] ''root'' (StoreApp 0))
     = Inr (Some \<lparr>backend = Some (Backend 0), rpcClient = Some (Client 0),
                   emt = Some (Server 0), tmNode = Some (TmNode 0)\<rparr>, None)
   \<and> (\<exists>node app.
          EvService node (Inr (Backend 0)) \<in> set (snd (startServices env0 ctx0 [] ''root'' (StoreApp 0)))
          \<and> EvAttach node (Inr (Client 0)) \<in> set (snd (startServices env0 ctx0 [] ''root'' (StoreApp 0)))
          \<and> EvNewEthermintApplication (Backend 0) (Client 0) (Inr app)
              \<in> set (snd (startServices env0 ctx0 [] ''root'' (StoreApp 0)))
          \<and> (\<exists>a p. EvNewServer a p app (Inr (Server 0))
                \<in> set (snd (startServices env0 ctx0 [] ''root'' (StoreApp 0))))
          \<and> EvServerStart (Server 0) None \<in> set (snd (startServices env0 ctx0 [] ''root'' (StoreApp 0)))
          \<and> (\<exists>cfg papp. EvNewNode cfg papp (Inr (TmNode 0))
                \<in> set (snd (startServices env0 ctx0 [] ''root'' (StoreApp 0))))
          \<and> EvNodeStart (TmNode 0) None \<in> set (snd (startServices env0 ctx0 [] ''root'' (StoreApp 0))))"
proof -
  have run: "fst (startServices env0 ctx0 [] ''root'' (StoreApp 0))
     = Inr (Some \<lparr>backend = Some (Backend 0), rpcClient = Some (Client 0),
                   emt = Some (Server 0), tmNode = Some (TmNode 0)\<rparr>, None)"
    by code_simp
  from startServices_handle [OF run] run show ?thesis
    by auto
qed

subsection \<open>The attached clients\<close>

lemma unlockEvent_no_client:
  "unlockEvent e \<Longrightarrow> attachedOf e = None \<and> bridgeClientOf e = None"
  by (cases e) (simp_all add: unlockEvent_def attachedOf_def bridgeClientOf_def)

lemma openWallets_no_attach: "attached (openWallets env h sr ws) = []"
proof (induction ws arbitrary: h)
  case Nil
  then show ?case by (simp add: attached_def)
next
  case (Cons w ws)
  let ?t = "EvOpen w [] (WalletOpen env h w []) #
              (case WalletOpen env h w [] of
                 Some err \<Rightarrow> [EvLog Warn ''Failed to open wallet''
                                [(''url'', url_String (wallet_URL w)), (''err'', err)]]
               | None \<Rightarrow> [EvSelfDerive w sr])"
  show ?case
    using Cons.IH [of "h @ ?t"]
    by (cases "WalletOpen env h w []")
       (simp_all add: attached_def attachedOf_def Let_def map_filter_append)
qed

lemma watchEvents_no_attach: "attached (watchEvents env h sr evs) = []"
proof (induction evs arbitrary: h)
  case Nil
  then show ?case by (simp add: attached_def)
next
  case (Cons ev evs)
  have ih: "List.map_filter attachedOf (watchEvents env h' sr evs) = []" for h'
    using Cons.IH [of h'] by (simp add: attached_def)
  show ?case
    by (simp add: attached_def attachedOf_def Let_def map_filter_append ih
             split: option.splits)
qed

text \<open>
  C3, as the code has it. \<open>startServices\<close> calls \<open>Attach\<close> once; the client returned is the
  one the application is built with and the one stored in the handle. The watcher is
  not given that client: it calls \<open>Attach\<close> itself, once, and every chain-state reader it
  hands to \<open>SelfDerive\<close> wraps the client that call returned. So the application and the
  watcher use one client object only where \<open>Attach\<close> returns the same object to both
  calls.
\<close>

theorem clients_attached_separately:
  "(\<forall>sv err. fst (startServices env context h rootDir storeApp) = Inr (sv, err) \<longrightarrow>
      (\<exists>c s. sv = Some s \<and> rpcClient s = Some c
         \<and> attached (snd (startServices env context h rootDir storeApp)) = [c]
         \<and> bridgeClients (snd (startServices env context h rootDir storeApp)) = [c]))
   \<and> (\<forall>c'. Attach env h' stack = Inr c' \<longrightarrow>
         attached (snd (walletWatcher env h' stack events)) = [c']
         \<and> set (readers (snd (walletWatcher env h' stack events))) \<subseteq> {NewClient c'})"
proof (intro conjI allI impI)
  fix sv err
  assume ret: "fst (startServices env context h rootDir storeApp) = Inr (sv, err)"
  show "\<exists>c s. sv = Some s \<and> rpcClient s = Some c
         \<and> attached (snd (startServices env context h rootDir storeApp)) = [c]
         \<and> bridgeClients (snd (startServices env context h rootDir storeApp)) = [c]"
  proof (cases rule: startServices_cases [of env h "context" rootDir storeApp])
    case (returns emNode t1 b c app srv bapp h9 n t10)
    from returns(3) obtain cfg papp n' where
      t10: "t10 = [EvParseConfig (Inr cfg), EvLoadOrGenPrivValidatorFS (PrivValidatorFile cfg),
          EvNewNode cfg papp (Inr n'), EvNodeStart n' None]"
      by (cases rule: startTendermint_cases [of env h9 bapp]) auto
    from returns(2) obtain bs t where
      t1: "t1 = EvStartNode emNode None # EvBackends emNode bs # t @ [EvSubscribe emNode, EvGo]"
      and t: "\<forall>e \<in> set t. unlockEvent e"
      by (cases rule: startNode_cases [of env "context" "h @ [EvMakeFullNode (Inr emNode)]" emNode]) auto
    have a: "List.map_filter attachedOf t = []" and b: "List.map_filter bridgeClientOf t = []"
      using t unlockEvent_no_client by (auto intro!: map_filter_None)
    have 1: "attached (snd (startServices env context h rootDir storeApp)) = [c]"
      unfolding returns(4) snd_conv t10 t1 attached_def
      by (simp add: map_filter_append a attachedOf_def)
    have 2: "bridgeClients (snd (startServices env context h rootDir storeApp)) = [c]"
      unfolding returns(4) snd_conv t10 t1 bridgeClients_def
      by (simp add: map_filter_append b bridgeClientOf_def)
    from ret have "sv = Some \<lparr>backend = Some b, rpcClient = Some c, emt = Some srv, tmNode = n\<rparr>"
      unfolding returns(4) by simp
    with 1 2 show ?thesis by simp
  qed (use ret in simp_all)
next
  fix c'
  assume att: "Attach env h' stack = Inr c'"
  let ?t0 = "[EvAttach stack (Inr c')]"
  let ?ws = "Wallets env (h' @ ?t0) stack"
  let ?t1 = "?t0 @ [EvWallets stack ?ws]"
  let ?o = "openWallets env (h' @ ?t1) (NewClient c') ?ws"
  let ?w = "watchEvents env (h' @ ?t1 @ ?o) (NewClient c') events"
  have run: "walletWatcher env h' stack events = (Inr (), ?t1 @ ?o @ ?w)"
    by (simp add: walletWatcher_def att Let_def)
  have "attached (?t1 @ ?o @ ?w) = [c'] @ attached ?o @ attached ?w"
    by (simp add: attached_def attachedOf_def map_filter_append)
  then show "attached (snd (walletWatcher env h' stack events)) = [c']"
    unfolding run snd_conv by (simp add: openWallets_no_attach watchEvents_no_attach)
  have "derivations (?t1 @ ?o @ ?w) = derivations ?o @ derivations ?w"
    by (simp add: derivations_def derivationOf_def map_filter_append)
  then show "set (readers (snd (walletWatcher env h' stack events))) \<subseteq> {NewClient c'}"
    unfolding run snd_conv readers_def
    using openWallets_effects [of env "h' @ ?t1" "NewClient c'" ?ws]
      watchEvents_effects [of env "h' @ ?t1 @ ?o" "NewClient c'" events]
    by auto
qed

theorem clients_attached_separately_witness:
  "fst (startServices env0 ctx0 [] ''root'' (StoreApp 0))
     = Inr (Some \<lparr>backend = Some (Backend 0), rpcClient = Some (Client 0),
                   emt = Some (Server 0), tmNode = Some (TmNode 0)\<rparr>, None)
   \<and> attached (snd (startServices env0 ctx0 [] ''root'' (StoreApp 0))) = [Client 0]
   \<and> bridgeClients (snd (startServices env0 ctx0 [] ''root'' (StoreApp 0))) = [Client 0]
   \<and> Attach env0 (snd (startServices env0 ctx0 [] ''root'' (StoreApp 0))) (EthNode 0) = Inr (Client 1)
   \<and> attached (snd (walletWatcher env0 (snd (startServices env0 ctx0 [] ''root'' (StoreApp 0)))
               (EthNode 0) [\<lparr>Wallet = ledger 1, Arrive = True\<rparr>])) = [Client 1]
   \<and> set (readers (snd (walletWatcher env0 (snd (startServices env0 ctx0 [] ''root'' (StoreApp 0)))
               (EthNode 0) [\<lparr>Wallet = ledger 1, Arrive = True\<rparr>]))) \<subseteq> {NewClient (Client 1)}"
proof -
  have run: "fst (startServices env0 ctx0 [] ''root'' (StoreApp 0))
     = Inr (Some \<lparr>backend = Some (Backend 0), rpcClient = Some (Client 0),
                   emt = Some (Server 0), tmNode = Some (TmNode 0)\<rparr>, None)"
    by code_simp
  have att: "Attach env0 (snd (startServices env0 ctx0 [] ''root'' (StoreApp 0))) (EthNode 0) = Inr (Client 1)"
    by code_simp
  from clients_attached_separately [of env0 ctx0 "[]" "''root''" "StoreApp 0"
      "snd (startServices env0 ctx0 [] ''root'' (StoreApp 0))" "EthNode 0"
      "[\<lparr>Wallet = ledger 1, Arrive = True\<rparr>]"] run att
  show ?thesis by auto
qed

text \<open>
  C3 as stated fails. Where every \<open>Attach\<close> hands out a client of its own, and the watcher runs once
  \<open>startServices\<close> has returned, the application holds client 0 and the watcher reads
  the chain through client 1: the client is not shared.
\<close>

theorem shared_client_counterexample:
  "\<not> sharedClient (snd (startServices env0 ctx0 [] ''root'' (StoreApp 0)))
        (snd (walletWatcher env0 (snd (startServices env0 ctx0 [] ''root'' (StoreApp 0)))
               (EthNode 0) [\<lparr>Wallet = ledger 1, Arrive = True\<rparr>]))"
proof -
  have b: "bridgeClients (snd (startServices env0 ctx0 [] ''root'' (StoreApp 0))) = [Client 0]"
    by code_simp
  have r: "readers (snd (walletWatcher env0 (snd (startServices env0 ctx0 [] ''root'' (StoreApp 0)))
               (EthNode 0) [\<lparr>Wallet = ledger 1, Arrive = True\<rparr>])) = [NewClient (Client 1)]"
    by code_simp
  show ?thesis
    unfolding sharedClient_def b r by simp
qed

subsection \<open>The error policy\<close>









subsection \<open>The order of the stages\<close>














end
